theory Spec2Isabelle
  imports Main "HOL-Library.AList" "HOL-Library.Sublist"
begin

section \<open>Characters and the string methods of Python\<close>

text \<open>
  A text is a \<^typ>\<open>string\<close>; a \<^typ>\<open>char\<close> stands for the Unicode code point of the
  same number, so the model covers the texts whose code points are below 256.
  \<open>is_space\<close> is \<^verbatim>\<open>str.isspace\<close> on that range, which is also what \<^verbatim>\<open>\s\<close> matches
  in a \<^verbatim>\<open>str\<close> pattern; \<open>is_word\<close> is what \<^verbatim>\<open>\w\<close> matches there (alphanumeric or
  the underscore).
\<close>

definition is_space :: "char \<Rightarrow> bool" where
  "is_space c =
     (let n = (of_char c :: nat)
      in (9 \<le> n \<and> n \<le> 13) \<or> (28 \<le> n \<and> n \<le> 32) \<or> n = 133 \<or> n = 160)"

definition is_word :: "char \<Rightarrow> bool" where
  "is_word c =
     (let n = (of_char c :: nat)
      in (48 \<le> n \<and> n \<le> 57) \<or> (65 \<le> n \<and> n \<le> 90) \<or> n = 95 \<or> (97 \<le> n \<and> n \<le> 122)
         \<or> n = 170 \<or> n = 178 \<or> n = 179 \<or> n = 181 \<or> n = 185 \<or> n = 186
         \<or> (188 \<le> n \<and> n \<le> 190) \<or> (192 \<le> n \<and> n \<le> 214)
         \<or> (216 \<le> n \<and> n \<le> 246) \<or> (248 \<le> n \<and> n \<le> 255))"

text \<open>\<^verbatim>\<open>s.strip()\<close>: whitespace removed at both ends.\<close>

definition py_strip :: "string \<Rightarrow> string" where
  "py_strip s = rev (dropWhile is_space (rev (dropWhile is_space s)))"

text \<open>
  \<^verbatim>\<open>s.split()\<close> without argument: the maximal runs of characters that are not
  whitespace, in order; no empty token. \<open>cur\<close> is the token being read, reversed.
\<close>

fun split_from :: "string \<Rightarrow> string \<Rightarrow> string list" where
  "split_from cur [] = (if cur = [] then [] else [rev cur])"
| "split_from cur (c # cs) =
     (if is_space c then (if cur = [] then split_from [] cs else rev cur # split_from [] cs)
      else split_from (c # cur) cs)"

definition py_split :: "string \<Rightarrow> string list" where
  "py_split s = split_from [] s"

section \<open>The regular expressions of the source, with backtracking\<close>

text \<open>
  The two patterns of the source use literal characters, repetitions of a character
  class (greedy \<^verbatim>\<open>*\<close> and \<^verbatim>\<open>+\<close>, lazy \<^verbatim>\<open>*?\<close>), capturing groups around such a
  repetition, and \<^verbatim>\<open>$\<close>. A pattern is the list of its tokens. \<open>Rep q n cl\<close> repeats
  the class \<open>cl\<close> at least \<open>n\<close> times; \<open>Cap\<close> is the same inside a capturing group.
\<close>

datatype cclass = Space | Word | Dot | Not_char char

fun in_class :: "cclass \<Rightarrow> char \<Rightarrow> bool" where
  "in_class Space c = is_space c"
| "in_class Word c = is_word c"
| "in_class Dot c = (c \<noteq> CHR 0x0A)"
| "in_class (Not_char x) c = (c \<noteq> x)"

datatype quant = Greedy | Lazy

datatype tok = Chr char | Rep quant nat cclass | Cap quant nat cclass | Dollar

text \<open>
  The numbers of characters a repetition may take, in the order the matching engine
  tries them: the longest run first when greedy, the shortest first when lazy.
\<close>

definition counts :: "quant \<Rightarrow> nat \<Rightarrow> cclass \<Rightarrow> string \<Rightarrow> nat list" where
  "counts q n cl s =
     (let ks = [n ..< Suc (length (takeWhile (in_class cl) s))]
      in case q of Greedy \<Rightarrow> rev ks | Lazy \<Rightarrow> ks)"

fun first_some :: "('a \<Rightarrow> 'b option) \<Rightarrow> 'a list \<Rightarrow> 'b option" where
  "first_some f [] = None"
| "first_some f (x # xs) = (case f x of Some y \<Rightarrow> Some y | None \<Rightarrow> first_some f xs)"

text \<open>
  \<open>rmatch p s caps\<close> matches the pattern \<open>p\<close> at the start of \<open>s\<close>: the groups captured
  (after \<open>caps\<close>) and the text left after the match, or \<open>None\<close>. A repetition tries its
  counts in order and keeps the first with which the rest of the pattern matches, which
  is the result of backtracking. \<open>Dollar\<close> holds at the end of the text and before a
  line feed that ends it.
\<close>

primrec rmatch :: "tok list \<Rightarrow> string \<Rightarrow> string list \<Rightarrow> (string list \<times> string) option" where
  "rmatch [] s caps = Some (caps, s)"
| "rmatch (t # ts) s caps =
     (case t of
        Chr c \<Rightarrow> (case s of [] \<Rightarrow> None | x # xs \<Rightarrow> if x = c then rmatch ts xs caps else None)
      | Rep q n cl \<Rightarrow> first_some (\<lambda>k. rmatch ts (drop k s) caps) (counts q n cl s)
      | Cap q n cl \<Rightarrow>
          first_some (\<lambda>k. rmatch ts (drop k s) (caps @ [take k s])) (counts q n cl s)
      | Dollar \<Rightarrow> (if s = [] \<or> s = [CHR 0x0A] then rmatch ts s caps else None))"

text \<open>\<^verbatim>\<open>list\s+(\w+)\s*{[^{]*?key\s+"([^"]+)"\<close> (the flag DOTALL changes only the dot,
  which the pattern does not use).\<close>

definition list_pattern :: "tok list" where
  "list_pattern =
     map Chr ''list'' @
     [Rep Greedy 1 Space, Cap Greedy 1 Word, Rep Greedy 0 Space, Chr CHR ''{'',
      Rep Lazy 0 (Not_char CHR ''{'')] @
     map Chr ''key'' @
     [Rep Greedy 1 Space, Chr CHR 0x22, Cap Greedy 1 (Not_char CHR 0x22), Chr CHR 0x22]"

lemma first_some_SomeD: "first_some f xs = Some y \<Longrightarrow> \<exists>x \<in> set xs. f x = Some y"
  by (induction xs) (auto split: option.splits)

lemma rmatch_length_le:
  "rmatch p s caps = Some (caps', rest) \<Longrightarrow> length rest \<le> length s"
proof (induction p arbitrary: s caps)
  case Nil
  then show ?case by simp
next
  case (Cons t ts)
  show ?case
  proof (cases t)
    case (Chr c)
    with Cons.prems obtain xs where "s = c # xs" "rmatch ts xs caps = Some (caps', rest)"
      by (auto split: list.splits if_splits)
    with Cons.IH show ?thesis by fastforce
  next
    case (Rep q n cl)
    with Cons.prems obtain k where "rmatch ts (drop k s) caps = Some (caps', rest)"
      by (auto dest: first_some_SomeD)
    with Cons.IH have "length rest \<le> length (drop k s)" by blast
    then show ?thesis by simp
  next
    case (Cap q n cl)
    with Cons.prems obtain k where
      "rmatch ts (drop k s) (caps @ [take k s]) = Some (caps', rest)"
      by (auto dest: first_some_SomeD)
    with Cons.IH have "length rest \<le> length (drop k s)" by blast
    then show ?thesis by simp
  next
    case Dollar
    with Cons.prems have "rmatch ts s caps = Some (caps', rest)"
      by (auto split: if_splits)
    with Cons.IH show ?thesis by blast
  qed
qed

lemma list_pattern_consumes:
  assumes "rmatch list_pattern s [] = Some (caps, rest)"
  shows "length rest < length s"
proof -
  obtain ts where p: "list_pattern = Chr CHR ''l'' # ts"
    by (simp add: list_pattern_def)
  from assms obtain xs where "s = CHR ''l'' # xs" "rmatch ts xs [] = Some (caps, rest)"
    unfolding p by (auto split: list.splits if_splits)
  with rmatch_length_le show ?thesis by fastforce
qed

text \<open>
  \<^verbatim>\<open>re.finditer(list_pattern, content, re.DOTALL)\<close>: the matches from left to right,
  without overlap; each is the list of its two groups. After a match the search goes
  on where the match ended, and where no match starts it moves one character on.
\<close>

function finditer :: "string \<Rightarrow> string list list" where
  "finditer s =
     (case rmatch list_pattern s [] of
        Some (caps, rest) \<Rightarrow> caps # finditer rest
      | None \<Rightarrow> (case s of [] \<Rightarrow> [] | c # cs \<Rightarrow> finditer cs))"
  by pat_completeness auto
termination
  by (relation "measure length") (auto dest: list_pattern_consumes)

declare finditer.simps [simp del]

section \<open>The Declaration Extractor\<close>

text \<open>The value stored for a table: a Python \<^verbatim>\<open>str\<close> or a Python \<^verbatim>\<open>list\<close> of \<^verbatim>\<open>str\<close>.\<close>

datatype key_value = Scalar string | Seq "string list"

text \<open>
  A Python \<^verbatim>\<open>dict\<close> keeps its keys in insertion order: assigning to a key that is
  present replaces the value in place, a new key goes last. That is \<open>AList.update\<close>.
\<close>

type_synonym tables = "(string \<times> key_value) list"

text \<open>The body of the loop over the matches, lines 62 to 70.\<close>

definition record_match :: "string list \<Rightarrow> tables \<Rightarrow> tables" where
  "record_match m tables_and_keys =
     (let table_name = m ! 0;
          key_value = py_strip (m ! 1);
          keys = py_split key_value
      in if length keys = 1 then AList.update table_name (Scalar (keys ! 0)) tables_and_keys
         else AList.update table_name (Seq keys) tables_and_keys)"

definition extract_keys_from_content :: "string \<Rightarrow> tables" where
  "extract_keys_from_content content = fold record_match (finditer content) []"

section \<open>Paths, archives and the log\<close>

text \<open>\<^verbatim>\<open>s.endswith(t)\<close>, \<^verbatim>\<open>os.path.basename\<close> and \<^verbatim>\<open>os.path.join\<close> of two parts, as
  \<^verbatim>\<open>posixpath\<close> defines them.\<close>

definition endswith :: "string \<Rightarrow> string \<Rightarrow> bool" where
  "endswith s t = (length t \<le> length s \<and> drop (length s - length t) s = t)"

definition basename :: "string \<Rightarrow> string" where
  "basename p = rev (takeWhile (\<lambda>c. c \<noteq> CHR ''/'') (rev p))"

definition path_join :: "string \<Rightarrow> string \<Rightarrow> string" where
  "path_join a b =
     (if b \<noteq> [] \<and> hd b = CHR ''/'' then b
      else if a = [] \<or> endswith a ''/'' then a @ b
      else a @ ''/'' @ b)"

text \<open>\<^verbatim>\<open>.*-.*\.yang$\<close>, compiled without flags: the dot takes no line feed.\<close>

definition yang_pattern :: "tok list" where
  "yang_pattern =
     [Rep Greedy 0 Dot, Chr CHR ''-'', Rep Greedy 0 Dot] @ map Chr ''.yang'' @ [Dollar]"

text \<open>\<^verbatim>\<open>pattern.match(file_path)\<close> as a truth value: a match that starts at the first
  character.\<close>

definition pattern_match :: "string \<Rightarrow> bool" where
  "pattern_match file_path = (rmatch yang_pattern file_path [] \<noteq> None)"

text \<open>The two tests of lines 34 and 37, under which a member is extracted and listed.\<close>

definition selected :: "string \<Rightarrow> bool" where
  "selected file_path =
     ((pattern_match file_path \<and> \<not> endswith file_path ''/'')
      \<and> CHR ''-'' \<in> set (basename file_path))"

datatype level = DEBUG | INFO | WARNING | ERROR

datatype message =
    All_files_in_zip "string list"
  | Extracted string
  | Total_extracted nat
  | Found_table string "string list"
  | Error_parsing string
  | Extracted_tables nat string
  | No_yang_files_found
  | Examining_sample string
  | Sample_content string
  | Parsing string
  | Results_saved string
  | Error_message

type_synonym log = "(level \<times> message) list"

text \<open>
  The exceptions of the run: \<^verbatim>\<open>ZipFile(zip_path)\<close> fails (no file, no permission, not
  an archive), the data of a member cannot be read from the archive (encrypted, damaged,
  unknown compression), the output file cannot be written.
\<close>

datatype error = Archive_open_error | Member_read_error | Output_write_error

text \<open>
  A member of an archive: its name and its data, \<open>None\<close> when reading the data raises.
\<close>

record zip_entry =
  entry_name :: string
  entry_data :: "string option"

text \<open>
  What the run finds outside itself: the archives by path (\<open>None\<close> when opening
  raises), the name of the temporary directory, the text that
  \<^verbatim>\<open>open(p, 'r', encoding='utf-8', errors='replace').read()\<close> returns for a path after the
  extraction (\<open>None\<close> when it raises), and the output paths that can be written.
\<close>

record world =
  zip_files :: "string \<Rightarrow> zip_entry list option"
  temp_dir :: string
  text_files :: "string \<Rightarrow> string option"
  writable :: "string \<Rightarrow> bool"

text \<open>\<^verbatim>\<open>namelist()\<close>; and the data of the member a name stands for, which is the last
  member of that name. Both \<^verbatim>\<open>extract\<close> and \<^verbatim>\<open>open\<close> read it.\<close>

definition namelist :: "zip_entry list \<Rightarrow> string list" where
  "namelist zip_ref = map entry_name zip_ref"

definition read_member :: "zip_entry list \<Rightarrow> string \<Rightarrow> error + string" where
  "read_member zip_ref file_path =
     (case find (\<lambda>e. entry_name e = file_path) (rev zip_ref) of
        None \<Rightarrow> Inl Member_read_error
      | Some e \<Rightarrow> (case entry_data e of None \<Rightarrow> Inl Member_read_error | Some d \<Rightarrow> Inr d))"

section \<open>The Archive Member Selector\<close>

text \<open>The loop of lines 33 to 41; an exception of \<^verbatim>\<open>extract\<close> ends it.\<close>

fun select_loop ::
  "zip_entry list \<Rightarrow> string \<Rightarrow> string list \<Rightarrow> log \<times> string list \<Rightarrow> log \<times> (error + string list)"
where
  "select_loop zip_ref td [] (lg, yang_files) = (lg, Inr yang_files)"
| "select_loop zip_ref td (file_path # rest) (lg, yang_files) =
     (if selected file_path then
        (case read_member zip_ref file_path of
           Inl e \<Rightarrow> (lg, Inl e)
         | Inr d \<Rightarrow>
             select_loop zip_ref td rest
               (lg @ [(INFO, Extracted file_path)], yang_files @ [path_join td file_path]))
      else select_loop zip_ref td rest (lg, yang_files))"

definition extract_yang_files :: "world \<Rightarrow> string \<Rightarrow> string \<Rightarrow> log \<times> (error + string list)" where
  "extract_yang_files w zip_path td =
     (case zip_files w zip_path of
        None \<Rightarrow> ([], Inl Archive_open_error)
      | Some zip_ref \<Rightarrow>
          (let all_files = namelist zip_ref;
               (lg, r) = select_loop zip_ref td all_files ([(DEBUG, All_files_in_zip all_files)], [])
           in case r of
                Inl e \<Rightarrow> (lg, Inl e)
              | Inr yang_files \<Rightarrow>
                  (lg @ [(INFO, Total_extracted (length yang_files))], Inr yang_files)))"

section \<open>The Extractor on a file, and the Aggregator\<close>

definition found_table :: "string list \<Rightarrow> level \<times> message" where
  "found_table m = (DEBUG, Found_table (m ! 0) (py_split (py_strip (m ! 1))))"

text \<open>
  \<open>extract_keys_using_regex\<close>: an exception of \<^verbatim>\<open>open\<close> or \<^verbatim>\<open>read\<close> is caught inside
  the function, which then returns the dictionary as it is, empty. No exception leaves
  the function.
\<close>

definition extract_keys_using_regex :: "world \<Rightarrow> string \<Rightarrow> log \<times> tables" where
  "extract_keys_using_regex w yang_file_path =
     (case text_files w yang_file_path of
        None \<Rightarrow>
          ([(ERROR, Error_parsing yang_file_path),
            (INFO, Extracted_tables 0 (basename yang_file_path))], [])
      | Some content \<Rightarrow>
          (let tables_and_keys = extract_keys_from_content content
           in (map found_table (finditer content) @
               [(INFO, Extracted_tables (length tables_and_keys) (basename yang_file_path))],
               tables_and_keys)))"

text \<open>\<^verbatim>\<open>d.update(other)\<close>: the items of \<open>other\<close> assigned in their order.\<close>

definition dict_update :: "tables \<Rightarrow> tables \<Rightarrow> tables" where
  "dict_update d other = fold (\<lambda>(k, v). AList.update k v) other d"

text \<open>The loop of lines 105 to 112. Its \<^verbatim>\<open>except\<close> has nothing to catch, since
  \<open>extract_keys_using_regex\<close> raises nothing.\<close>

fun parse_loop :: "world \<Rightarrow> string list \<Rightarrow> log \<times> tables \<Rightarrow> log \<times> tables" where
  "parse_loop w [] (lg, all_tables_and_keys) = (lg, all_tables_and_keys)"
| "parse_loop w (yang_file # rest) (lg, all_tables_and_keys) =
     (let (lg', tables_and_keys) = extract_keys_using_regex w yang_file
      in parse_loop w rest
           (lg @ [(INFO, Parsing yang_file)] @ lg', dict_update all_tables_and_keys tables_and_keys))"

text \<open>
  Lines 92 to 102, run when no member was selected: a warning, then the first member
  whose name ends with \<^verbatim>\<open>.yang\<close> and not with a slash is opened and its first 500 bytes
  are logged. The read stands under no \<^verbatim>\<open>try\<close>.
\<close>

definition sample_diagnostic :: "world \<Rightarrow> string \<Rightarrow> log \<times> (error + unit)" where
  "sample_diagnostic w zip_path =
     (let lg = [(WARNING, No_yang_files_found)]
      in case zip_files w zip_path of
           None \<Rightarrow> (lg, Inl Archive_open_error)
         | Some zip_ref \<Rightarrow>
             (case find (\<lambda>file_path. endswith file_path ''.yang'' \<and> \<not> endswith file_path ''/'')
                     (namelist zip_ref) of
                None \<Rightarrow> (lg, Inr ())
              | Some file_path \<Rightarrow>
                  (case read_member zip_ref file_path of
                     Inl e \<Rightarrow> (lg @ [(INFO, Examining_sample file_path)], Inl e)
                   | Inr d \<Rightarrow>
                       (lg @ [(INFO, Examining_sample file_path),
                              (INFO, Sample_content (take 500 d))], Inr ()))))"

definition extract_primary_keys_from_zip :: "world \<Rightarrow> string \<Rightarrow> log \<times> (error + tables)" where
  "extract_primary_keys_from_zip w zip_path =
     (case extract_yang_files w zip_path (temp_dir w) of
        (lg1, Inl e) \<Rightarrow> (lg1, Inl e)
      | (lg1, Inr yang_files) \<Rightarrow>
          (case (if yang_files = [] then sample_diagnostic w zip_path else ([], Inr ())) of
             (lg2, Inl e) \<Rightarrow> (lg1 @ lg2, Inl e)
           | (lg2, Inr u) \<Rightarrow>
               (case parse_loop w yang_files (lg1 @ lg2, []) of
                  (lg3, all_tables_and_keys) \<Rightarrow> (lg3, Inr all_tables_and_keys))))"

section \<open>The command\<close>

record args =
  zip_file :: string
  output_opt :: "string option"
  verbose :: bool

text \<open>
  What a run leaves: the exit status, the log records that are emitted, the mapping
  printed on the standard output as a JSON document and the mapping written to the
  output file, if any. Serialisation is \<^verbatim>\<open>json.dump\<close> of the library and is not
  modelled: an outcome holds the mapping that is serialised.
\<close>

record outcome =
  exit_status :: int
  emitted :: log
  printed :: "tables option"
  written :: "(string \<times> tables) option"

text \<open>Without \<^verbatim>\<open>--verbose\<close> the logger stays at level INFO and drops the DEBUG records.\<close>

definition emit :: "bool \<Rightarrow> log \<Rightarrow> log" where
  "emit v lg = filter (\<lambda>(l, m). v \<or> l \<noteq> DEBUG) lg"

definition main :: "world \<Rightarrow> args \<Rightarrow> outcome" where
  "main w a =
     (case extract_primary_keys_from_zip w (zip_file a) of
        (lg, Inl e) \<Rightarrow>
          \<lparr>exit_status = 1, emitted = emit (verbose a) (lg @ [(ERROR, Error_message)]),
           printed = None, written = None\<rparr>
      | (lg, Inr primary_keys) \<Rightarrow>
          (case output_opt a of
             Some path \<Rightarrow>
               if path \<noteq> [] then
                 (if writable w path then
                    \<lparr>exit_status = 0, emitted = emit (verbose a) (lg @ [(INFO, Results_saved path)]),
                     printed = None, written = Some (path, primary_keys)\<rparr>
                  else
                    \<lparr>exit_status = 1, emitted = emit (verbose a) (lg @ [(ERROR, Error_message)]),
                     printed = None, written = None\<rparr>)
               else
                 \<lparr>exit_status = 0, emitted = emit (verbose a) lg,
                  printed = Some primary_keys, written = None\<rparr>
           | None \<Rightarrow>
               \<lparr>exit_status = 0, emitted = emit (verbose a) lg,
                printed = Some primary_keys, written = None\<rparr>))"



section \<open>What each declaration contributes\<close>

text \<open>
  For stating the properties of the mapping: the value that lines 63 to 70 store for a
  raw key clause; the declarations of a text, each with its value, in textual order; the
  declarations a selected file contributes (none when it cannot be read) and those of a
  run, members in listing order.
\<close>

definition stored :: "string \<Rightarrow> key_value" where
  "stored key_raw =
     (let keys = py_split (py_strip key_raw)
      in if length keys = 1 then Scalar (keys ! 0) else Seq keys)"

definition declarations :: "string \<Rightarrow> (string \<times> key_value) list" where
  "declarations content = map (\<lambda>m. (m ! 0, stored (m ! 1))) (finditer content)"

definition member_declarations :: "world \<Rightarrow> string \<Rightarrow> (string \<times> key_value) list" where
  "member_declarations w yang_file =
     (case text_files w yang_file of None \<Rightarrow> [] | Some content \<Rightarrow> declarations content)"

definition contributions :: "world \<Rightarrow> string list \<Rightarrow> (string \<times> key_value) list" where
  "contributions w yang_files = concat (map (member_declarations w) yang_files)"

text \<open>The end of \<open>list_pattern\<close>, the key clause \<^verbatim>\<open>key\s+"([^"]+)"\<close>, on its own.\<close>

definition key_clause_pattern :: "tok list" where
  "key_clause_pattern =
     map Chr ''key'' @
     [Rep Greedy 1 Space, Chr CHR 0x22, Cap Greedy 1 (Not_char CHR 0x22), Chr CHR 0x22]"

text \<open>
  For the proofs about matching: the text after a repetition \<open>stops\<close> the class when it
  is empty or starts with a character outside the class, so that a greedy repetition
  takes the whole run before it first.
\<close>

definition stops :: "cclass \<Rightarrow> string \<Rightarrow> bool" where
  "stops cl rest = (case rest of [] \<Rightarrow> True | c # cs \<Rightarrow> \<not> in_class cl c)"

text \<open>Two small worlds, for concrete runs: an archive of two members that both declare
  \<open>Foo\<close>, and one whose first member has an absolute name, so that the path the
  Aggregator joins is not where the member was extracted and cannot be opened.\<close>

definition world_two_declaring :: world where
  \<open>world_two_declaring =
     \<lparr>zip_files = (\<lambda>p. if p = ''z.zip''
         then Some [\<lparr>entry_name = ''v1-a.yang'', entry_data = Some ''list Foo { key "a"; }''\<rparr>,
                    \<lparr>entry_name = ''v1-b.yang'', entry_data = Some ''list Foo { key "b c"; }''\<rparr>]
         else None),
      temp_dir = ''/tmp/t'',
      text_files = (\<lambda>p. if p = ''/tmp/t/v1-a.yang'' then Some ''list Foo { key "a"; }''
                        else if p = ''/tmp/t/v1-b.yang'' then Some ''list Foo { key "b c"; }''
                        else None),
      writable = (\<lambda>p. True)\<rparr>\<close>
definition world_one_unreadable :: world where
  \<open>world_one_unreadable =
     \<lparr>zip_files = (\<lambda>p. if p = ''z.zip''
         then Some [\<lparr>entry_name = ''/v1-a.yang'', entry_data = Some ''list Bar { key "a"; }''\<rparr>,
                    \<lparr>entry_name = ''v1-b.yang'', entry_data = Some ''list Foo { key "b c"; }''\<rparr>]
         else None),
      temp_dir = ''/tmp/t'',
      text_files = (\<lambda>p. if p = ''/tmp/t/v1-b.yang'' then Some ''list Foo { key "b c"; }''
                        else None),
      writable = (\<lambda>p. True)\<rparr>\<close>

text \<open>An archive whose only member is \<^verbatim>\<open>v1.yang\<close>, stored so that its data cannot be
  read without a password: no member is selected and the sample is that member.\<close>

definition world_sample_unreadable :: world where
  "world_sample_unreadable =
     \<lparr>zip_files = (\<lambda>p. if p = ''z.zip''
         then Some [\<lparr>entry_name = ''v1.yang'', entry_data = None\<rparr>]
         else None),
      temp_dir = ''/tmp/t'',
      text_files = (\<lambda>p. None),
      writable = (\<lambda>p. True)\<rparr>"

text \<open>An archive of two selected members, the first stored so that its data cannot be
  read without a password.\<close>

definition world_member_unextractable :: world where
  \<open>world_member_unextractable =
     \<lparr>zip_files = (\<lambda>p. if p = ''z.zip''
         then Some [\<lparr>entry_name = ''v1-a.yang'', entry_data = None\<rparr>,
                    \<lparr>entry_name = ''v1-b.yang'', entry_data = Some ''list Foo { key "b c"; }''\<rparr>]
         else None),
      temp_dir = ''/tmp/t'',
      text_files = (\<lambda>p. if p = ''/tmp/t/v1-b.yang'' then Some ''list Foo { key "b c"; }''
                        else None),
      writable = (\<lambda>p. True)\<rparr>\<close>

section \<open>Dictionaries as association lists\<close>

lemma record_match_update: "record_match m d = AList.update (m ! 0) (stored (m ! 1)) d"
  by (simp add: record_match_def stored_def Let_def)

lemma dict_update_Nil: "dict_update d [] = d"
  by (simp add: dict_update_def)

lemma dict_update_Cons: "dict_update d ((k, v) # kvs) = dict_update (AList.update k v d) kvs"
  by (simp add: dict_update_def)

lemma dict_update_append: "dict_update d (xs @ ys) = dict_update (dict_update d xs) ys"
  by (simp add: dict_update_def)

lemma map_of_dict_update: "map_of (dict_update d kvs) = map_of d ++ map_of (rev kvs)"
proof (induction kvs arbitrary: d)
  case Nil
  show ?case by (simp add: dict_update_Nil)
next
  case (Cons kv kvs)
  obtain k v where kv: "kv = (k, v)" by (cases kv)
  have "map_of (dict_update d (kv # kvs)) = map_of (AList.update k v d) ++ map_of (rev kvs)"
    by (simp add: kv dict_update_Cons Cons.IH)
  also have "\<dots> = map_of d ++ map_of (rev (kv # kvs))"
    by (simp add: kv update_conv' fun_eq_iff map_add_def split: option.splits)
  finally show ?case .
qed

lemma distinct_dict_update:
  "distinct (map fst d) \<Longrightarrow> distinct (map fst (dict_update d kvs))"
  by (induction kvs arbitrary: d) (auto simp: dict_update_Nil dict_update_Cons distinct_update)

lemma extract_keys_from_content_eq:
  "extract_keys_from_content content = dict_update [] (declarations content)"
proof -
  have "fold record_match ms d = dict_update d (map (\<lambda>m. (m ! 0, stored (m ! 1))) ms)" for ms d
    by (induction ms arbitrary: d) (simp_all add: dict_update_Nil dict_update_Cons record_match_update)
  then show ?thesis
    by (simp add: extract_keys_from_content_def declarations_def)
qed

lemma distinct_extract_keys_from_content:
  "distinct (map fst (extract_keys_from_content content))"
  by (simp add: extract_keys_from_content_eq distinct_dict_update)

lemma map_of_rev_distinct: "distinct (map fst al) \<Longrightarrow> map_of (rev al) = map_of al"
proof (induction al)
  case Nil
  show ?case by simp
next
  case (Cons e al)
  obtain k v where e: "e = (k, v)" by (cases e)
  from Cons.prems have none: "map_of al k = None"
    by (simp add: e map_of_eq_None_iff)
  from Cons have IH: "map_of (rev al) = map_of al" by simp
  show ?case
  proof
    fix x
    show "map_of (rev (e # al)) x = map_of (e # al) x"
      using none by (cases "x = k") (simp_all add: e IH map_add_def split: option.splits)
  qed
qed

lemma map_of_dict_update_dict:
  "map_of (dict_update d (dict_update [] kvs)) = map_of d ++ map_of (rev kvs)"
proof -
  have "distinct (map fst (dict_update [] kvs))"
    by (simp add: distinct_dict_update)
  then have "map_of (rev (dict_update [] kvs)) = map_of (dict_update [] kvs)"
    by (rule map_of_rev_distinct)
  then show ?thesis
    by (simp add: map_of_dict_update)
qed

lemma snd_extract_keys_using_regex:
  "snd (extract_keys_using_regex w f) = dict_update [] (member_declarations w f)"
  by (simp add: extract_keys_using_regex_def member_declarations_def dict_update_Nil
      extract_keys_from_content_eq Let_def split: option.splits)

lemma parse_loop_tables:
  "snd (parse_loop w files (lg, d)) =
     fold (\<lambda>f acc. dict_update acc (snd (extract_keys_using_regex w f))) files d"
  by (induction files arbitrary: lg d) (simp_all add: split_def Let_def)

lemma map_of_parse_loop:
  "map_of (snd (parse_loop w files (lg, d))) = map_of d ++ map_of (rev (contributions w files))"
proof (induction files arbitrary: lg d)
  case Nil
  show ?case by (simp add: contributions_def)
next
  case (Cons f files)
  show ?case
    by (simp add: split_def Let_def Cons.IH snd_extract_keys_using_regex map_of_dict_update_dict
        contributions_def)
qed

lemma distinct_parse_loop:
  "distinct (map fst d) \<Longrightarrow> distinct (map fst (snd (parse_loop w files (lg, d))))"
  by (induction files arbitrary: lg d) (simp_all add: split_def Let_def distinct_dict_update)

lemma map_of_last_occurrence:
  assumes "kvs = before @ (k, v) # after" and "k \<notin> fst ` set after"
  shows "map_of (rev kvs) k = Some v"
proof -
  from assms(2) have "map_of (rev after) k = None"
    by (simp add: map_of_eq_None_iff)
  with assms(1) show ?thesis
    by (simp add: map_add_def)
qed

lemma one_entry:
  "distinct (map fst al) \<Longrightarrow> map_of al k = Some v \<Longrightarrow> length (filter (\<lambda>e. fst e = k) al) = 1"
proof (induction al)
  case Nil
  then show ?case by simp
next
  case (Cons e al)
  show ?case
  proof (cases "fst e = k")
    case True
    with Cons.prems have "k \<notin> fst ` set al" by auto
    then have "filter (\<lambda>e. fst e = k) al = []"
      by (auto simp: filter_empty_conv)
    with True show ?thesis by simp
  next
    case False
    with Cons show ?thesis by (cases e) auto
  qed
qed



lemma split_from_tokens:
  assumes "\<forall>c \<in> set cur. \<not> is_space c" and "t \<in> set (split_from cur s)"
  shows "t \<noteq> [] \<and> (\<forall>c \<in> set t. \<not> is_space c)"
  using assms
proof (induction s arbitrary: cur)
  case Nil
  then have "cur \<noteq> []" and "t = rev cur"
    by (simp_all split: if_splits)
  with Nil.prems(1) show ?case by simp
next
  case (Cons c cs)
  show ?case
  proof (cases "is_space c")
    case True
    show ?thesis
    proof (cases "cur = []")
      case True
      with \<open>is_space c\<close> Cons.prems(2) have "t \<in> set (split_from [] cs)" by simp
      then show ?thesis using Cons.IH [of "[]"] by simp
    next
      case False
      with \<open>is_space c\<close> Cons.prems(2) have "t = rev cur \<or> t \<in> set (split_from [] cs)"
        by simp
      then show ?thesis
      proof
        assume "t = rev cur"
        with False Cons.prems(1) show ?thesis by simp
      next
        assume "t \<in> set (split_from [] cs)"
        then show ?thesis using Cons.IH [of "[]"] by simp
      qed
    qed
  next
    case False
    with Cons.prems(2) have "t \<in> set (split_from (c # cur) cs)" by simp
    moreover from False Cons.prems(1) have "\<forall>x \<in> set (c # cur). \<not> is_space x" by simp
    ultimately show ?thesis using Cons.IH [of "c # cur"] by blast
  qed
qed

lemma concat_split_from:
  "concat (split_from cur s) = rev cur @ filter (\<lambda>c. \<not> is_space c) s"
proof (induction s arbitrary: cur)
  case Nil
  show ?case by simp
next
  case (Cons c cs)
  show ?case by (cases "is_space c"; cases "cur = []") (simp_all add: Cons.IH)
qed

lemma py_split_tokens:
  "t \<in> set (py_split s) \<Longrightarrow> t \<noteq> [] \<and> (\<forall>c \<in> set t. \<not> is_space c)"
  using split_from_tokens [of "[]" t s] by (simp add: py_split_def)

lemma concat_py_split: "concat (py_split s) = filter (\<lambda>c. \<not> is_space c) s"
  by (simp add: py_split_def concat_split_from)

lemma stored_cases:
  "(\<forall>t. py_split (py_strip raw) = [t] \<longrightarrow> stored raw = Scalar t) \<and>
   (1 < length (py_split (py_strip raw)) \<longrightarrow> stored raw = Seq (py_split (py_strip raw)))"
  by (simp add: stored_def Let_def)

lemma map_of_extract_last:
  assumes "finditer content = ms @ m # ms'" and "m ! 0 \<notin> (\<lambda>x. x ! 0) ` set ms'"
  shows "map_of (extract_keys_from_content content) (m ! 0) = Some (stored (m ! 1))"
proof -
  let ?kv = "\<lambda>m. (m ! 0, stored (m ! 1))"
  have "declarations content = map ?kv ms @ ?kv m # map ?kv ms'"
    by (simp add: declarations_def assms(1))
  moreover have "m ! 0 \<notin> fst ` set (map ?kv ms')"
    using assms(2) by (auto simp: image_iff)
  ultimately have "map_of (rev (declarations content)) (m ! 0) = Some (stored (m ! 1))"
    by (rule map_of_last_occurrence)
  then show ?thesis
    by (simp add: extract_keys_from_content_eq map_of_dict_update)
qed

section \<open>The key clause\<close>

text \<open>
  Claim C1. The quoted string of a matched declaration is stripped and split at
  whitespace. When exactly one token results, the value the match stores for the entity
  is that token as a scalar string; when more than one results, it is the sequence of
  the tokens in their order. That is the value of the entity in the mapping of the
  text whenever no later match of the text has the same name. On
  \<^verbatim>\<open>list Foo { key "bar"; ... }\<close> the Extractor yields \<open>Foo\<close> to \<open>bar\<close>, and on
  \<^verbatim>\<open>list Foo { key "bar baz"; ... }\<close> it yields \<open>Foo\<close> to the list of \<open>bar\<close> and \<open>baz\<close>.
\<close>

theorem key_clause_representation:
  \<open>((\<forall>t. py_split (py_strip (m ! 1)) = [t] \<longrightarrow>
        map_of (record_match m d) (m ! 0) = Some (Scalar t)) \<and>
    (1 < length (py_split (py_strip (m ! 1))) \<longrightarrow>
        map_of (record_match m d) (m ! 0) = Some (Seq (py_split (py_strip (m ! 1))))))
   \<and> (finditer content = ms @ m # ms' \<and> m ! 0 \<notin> (\<lambda>x. x ! 0) ` set ms' \<longrightarrow>
        (\<forall>t. py_split (py_strip (m ! 1)) = [t] \<longrightarrow>
           map_of (extract_keys_from_content content) (m ! 0) = Some (Scalar t)) \<and>
        (1 < length (py_split (py_strip (m ! 1))) \<longrightarrow>
           map_of (extract_keys_from_content content) (m ! 0)
             = Some (Seq (py_split (py_strip (m ! 1))))))
   \<and> extract_keys_from_content ''list Foo { key "bar"; ... }'' = [(''Foo'', Scalar ''bar'')]
   \<and> extract_keys_from_content ''list Foo { key "bar baz"; ... }''
        = [(''Foo'', Seq [''bar'', ''baz''])]\<close>
proof -
  have a: "map_of (record_match m d) (m ! 0) = Some (stored (m ! 1))"
    by (simp add: record_match_update update_conv')
  have b: "map_of (extract_keys_from_content content) (m ! 0) = Some (stored (m ! 1))"
    if "finditer content = ms @ m # ms'" "m ! 0 \<notin> (\<lambda>x. x ! 0) ` set ms'"
    using that by (rule map_of_extract_last)
  have c: \<open>extract_keys_from_content ''list Foo { key "bar"; ... }'' = [(''Foo'', Scalar ''bar'')]\<close>
    by code_simp
  have e: \<open>extract_keys_from_content ''list Foo { key "bar baz"; ... }''
        = [(''Foo'', Seq [''bar'', ''baz''])]\<close>
    by code_simp
  have 1: "(\<forall>t. py_split (py_strip (m ! 1)) = [t] \<longrightarrow>
        map_of (record_match m d) (m ! 0) = Some (Scalar t)) \<and>
    (1 < length (py_split (py_strip (m ! 1))) \<longrightarrow>
        map_of (record_match m d) (m ! 0) = Some (Seq (py_split (py_strip (m ! 1)))))"
    using stored_cases [of "m ! 1"] by (simp only: a) simp
  have 2: "finditer content = ms @ m # ms' \<and> m ! 0 \<notin> (\<lambda>x. x ! 0) ` set ms' \<longrightarrow>
        (\<forall>t. py_split (py_strip (m ! 1)) = [t] \<longrightarrow>
           map_of (extract_keys_from_content content) (m ! 0) = Some (Scalar t)) \<and>
        (1 < length (py_split (py_strip (m ! 1))) \<longrightarrow>
           map_of (extract_keys_from_content content) (m ! 0)
             = Some (Seq (py_split (py_strip (m ! 1)))))"
  proof
    assume h: "finditer content = ms @ m # ms' \<and> m ! 0 \<notin> (\<lambda>x. x ! 0) ` set ms'"
    then have "map_of (extract_keys_from_content content) (m ! 0) = Some (stored (m ! 1))"
      using b by blast
    then show "(\<forall>t. py_split (py_strip (m ! 1)) = [t] \<longrightarrow>
           map_of (extract_keys_from_content content) (m ! 0) = Some (Scalar t)) \<and>
        (1 < length (py_split (py_strip (m ! 1))) \<longrightarrow>
           map_of (extract_keys_from_content content) (m ! 0)
             = Some (Seq (py_split (py_strip (m ! 1)))))"
      using stored_cases [of "m ! 1"] by simp
  qed
  show ?thesis
    by (rule conjI [OF 1 conjI [OF 2 conjI [OF c e]]])
qed

theorem key_clause_representation_witness:
  \<open>finditer ''list Foo { key "bar baz"; ... }'' = [] @ [''Foo'', ''bar baz''] # []
   \<and> [''Foo'', ''bar baz''] ! 0 \<notin> (\<lambda>x. x ! 0) ` set []
   \<and> 1 < length (py_split (py_strip ([''Foo'', ''bar baz''] ! 1)))
   \<and> map_of (extract_keys_from_content ''list Foo { key "bar baz"; ... }'') ''Foo''
       = Some (Seq [''bar'', ''baz''])\<close>
proof -
  have f: \<open>finditer ''list Foo { key "bar baz"; ... }'' = [] @ [''Foo'', ''bar baz''] # []\<close>
    by code_simp
  have s: \<open>py_split (py_strip ''bar baz'') = [''bar'', ''baz'']\<close>
    by code_simp
  have n: \<open>[''Foo'', ''bar baz''] ! 0 \<notin> (\<lambda>x. x ! 0) ` set []\<close>
    by simp
  from key_clause_representation
    [of \<open>[''Foo'', ''bar baz'']\<close> \<open>[]\<close> \<open>''list Foo { key "bar baz"; ... }''\<close> \<open>[]\<close> \<open>[]\<close>]
  have \<open>finditer ''list Foo { key "bar baz"; ... }'' = [] @ [''Foo'', ''bar baz''] # []
        \<and> [''Foo'', ''bar baz''] ! 0 \<notin> (\<lambda>x. x ! 0) ` set [] \<longrightarrow>
        (1 < length (py_split (py_strip ([''Foo'', ''bar baz''] ! 1))) \<longrightarrow>
           map_of (extract_keys_from_content ''list Foo { key "bar baz"; ... }'')
             ([''Foo'', ''bar baz''] ! 0)
             = Some (Seq (py_split (py_strip ([''Foo'', ''bar baz''] ! 1)))))\<close>
    by blast
  with f n have \<open>1 < length (py_split (py_strip ([''Foo'', ''bar baz''] ! 1))) \<longrightarrow>
           map_of (extract_keys_from_content ''list Foo { key "bar baz"; ... }'')
             ([''Foo'', ''bar baz''] ! 0)
             = Some (Seq (py_split (py_strip ([''Foo'', ''bar baz''] ! 1))))\<close>
    by blast
  with f n s show ?thesis
    by simp
qed

section \<open>The Aggregator\<close>

lemma parse_loop_log:
  "fst (parse_loop w files (lg, d)) =
     lg @ concat (map (\<lambda>f. (INFO, Parsing f) # fst (extract_keys_using_regex w f)) files)"
  by (induction files arbitrary: lg d) (simp_all add: split_def Let_def)

lemma parse_loop_readable:
  "snd (parse_loop w files (lg, d)) =
     fold (\<lambda>content acc. dict_update acc (extract_keys_from_content content))
       (List.map_filter (text_files w) files) d"
proof (induction files arbitrary: lg d)
  case Nil
  show ?case by (simp add: List.map_filter_simps)
next
  case (Cons f files)
  show ?case
    by (cases "text_files w f")
      (simp_all add: split_def Let_def Cons.IH List.map_filter_simps extract_keys_using_regex_def
        dict_update_Nil)
qed

lemma extract_primary_keys_selected:
  assumes "extract_yang_files w zip_path (temp_dir w) = (lg, Inr yang_files)"
    and "yang_files \<noteq> []"
  shows "extract_primary_keys_from_zip w zip_path =
           (fst (parse_loop w yang_files (lg, [])), Inr (snd (parse_loop w yang_files (lg, []))))"
  using assms by (simp add: extract_primary_keys_from_zip_def split_def)

text \<open>
  Claim C3. In a run whose Selector has returned, let the declarations of the selected
  members be listed in processing order (members in listing order, declarations in
  textual order). When an entity name occurs in that list, whether in several members
  or several times in one, the run raises nothing, the final mapping has exactly one
  entry of that name, and its value is the value of the last occurrence: the values of
  the occurrences are not merged.
\<close>

theorem last_occurrence_wins:
  assumes "extract_yang_files w zip_path (temp_dir w) = (lg, Inr yang_files)"
    and "contributions w yang_files = before @ (name, v) # after"
    and "name \<notin> fst ` set after"
  shows "\<exists>lg' final. extract_primary_keys_from_zip w zip_path = (lg', Inr final)
           \<and> map_of final name = Some v
           \<and> length (filter (\<lambda>e. fst e = name) final) = 1"
proof -
  from assms(2) have ne: "yang_files \<noteq> []"
    by (auto simp: contributions_def)
  let ?final = "snd (parse_loop w yang_files (lg, []))"
  have run: "extract_primary_keys_from_zip w zip_path =
               (fst (parse_loop w yang_files (lg, [])), Inr ?final)"
    using assms(1) ne by (rule extract_primary_keys_selected)
  have "map_of (rev (contributions w yang_files)) name = Some v"
    using assms(2,3) by (rule map_of_last_occurrence)
  then have val: "map_of ?final name = Some v"
    by (simp add: map_of_parse_loop)
  have "distinct (map fst ?final)"
    by (rule distinct_parse_loop) simp
  then have "length (filter (\<lambda>e. fst e = name) ?final) = 1"
    using val by (rule one_entry)
  with run val show ?thesis
    by (intro exI [of _ "fst (parse_loop w yang_files (lg, []))"] exI [of _ ?final] conjI)
qed

theorem last_occurrence_wins_witness:
  "extract_yang_files world_two_declaring ''z.zip'' (temp_dir world_two_declaring)
     = ([(DEBUG, All_files_in_zip [''v1-a.yang'', ''v1-b.yang'']), (INFO, Extracted ''v1-a.yang''),
         (INFO, Extracted ''v1-b.yang''), (INFO, Total_extracted 2)],
        Inr [''/tmp/t/v1-a.yang'', ''/tmp/t/v1-b.yang''])
   \<and> contributions world_two_declaring [''/tmp/t/v1-a.yang'', ''/tmp/t/v1-b.yang'']
     = [(''Foo'', Scalar ''a'')] @ (''Foo'', Seq [''b'', ''c'']) # []
   \<and> ''Foo'' \<notin> fst ` set ([] :: (string \<times> key_value) list)
   \<and> (\<exists>lg' final. extract_primary_keys_from_zip world_two_declaring ''z.zip'' = (lg', Inr final)
         \<and> map_of final ''Foo'' = Some (Seq [''b'', ''c''])
         \<and> length (filter (\<lambda>e. fst e = ''Foo'') final) = 1)"
proof -
  have h1: "extract_yang_files world_two_declaring ''z.zip'' (temp_dir world_two_declaring)
     = ([(DEBUG, All_files_in_zip [''v1-a.yang'', ''v1-b.yang'']), (INFO, Extracted ''v1-a.yang''),
         (INFO, Extracted ''v1-b.yang''), (INFO, Total_extracted 2)],
        Inr [''/tmp/t/v1-a.yang'', ''/tmp/t/v1-b.yang''])"
    by code_simp
  have h2: "contributions world_two_declaring [''/tmp/t/v1-a.yang'', ''/tmp/t/v1-b.yang'']
     = [(''Foo'', Scalar ''a'')] @ (''Foo'', Seq [''b'', ''c'']) # []"
    by code_simp
  have h3: "''Foo'' \<notin> fst ` set ([] :: (string \<times> key_value) list)"
    by simp
  from last_occurrence_wins [OF h1 h2 h3] h1 h2 h3 show ?thesis
    by (intro conjI)
qed

text \<open>
  A failure inside the Extractor is isolated. In a run whose Selector has returned a
  non-empty list, a file that cannot be opened or read makes the Extractor log an error
  and return the empty mapping; the loop goes on, every file is parsed, and the run
  returns the mapping merged from the files that could be read, in their order. Without
  an output path, \<open>main\<close> prints that mapping and returns 0.
\<close>

lemma extractor_failure_is_isolated:
  assumes "extract_yang_files w zip_path (temp_dir w) = (lg, Inr yang_files)"
    and "yang_files \<noteq> []"
  shows "\<exists>lg' final. extract_primary_keys_from_zip w zip_path = (lg', Inr final)
           \<and> final = fold (\<lambda>content acc. dict_update acc (extract_keys_from_content content))
                       (List.map_filter (text_files w) yang_files) []
           \<and> (\<forall>f \<in> set yang_files. (INFO, Parsing f) \<in> set lg'
                 \<and> (text_files w f = None \<longrightarrow>
                       (ERROR, Error_parsing f) \<in> set lg'
                       \<and> snd (extract_keys_using_regex w f) = []))
           \<and> (zip_file a = zip_path \<and> output_opt a = None \<longrightarrow>
                 exit_status (main w a) = 0 \<and> printed (main w a) = Some final)"
proof -
  let ?lg = "fst (parse_loop w yang_files (lg, []))"
  let ?final = "snd (parse_loop w yang_files (lg, []))"
  have run: "extract_primary_keys_from_zip w zip_path = (?lg, Inr ?final)"
    using assms by (rule extract_primary_keys_selected)
  have tables: "?final = fold (\<lambda>content acc. dict_update acc (extract_keys_from_content content))
                       (List.map_filter (text_files w) yang_files) []"
    by (rule parse_loop_readable)
  have logs: "(INFO, Parsing f) \<in> set ?lg \<and> (text_files w f = None \<longrightarrow>
                (ERROR, Error_parsing f) \<in> set ?lg \<and> snd (extract_keys_using_regex w f) = [])"
    if "f \<in> set yang_files" for f
  proof -
    have p: "(INFO, Parsing f) \<in> set ?lg"
      using that by (auto simp: parse_loop_log)
    have "(ERROR, Error_parsing f) \<in> set ?lg \<and> snd (extract_keys_using_regex w f) = []"
      if none: "text_files w f = None"
    proof -
      have "(ERROR, Error_parsing f) \<in> set (fst (extract_keys_using_regex w f))"
        by (simp add: extract_keys_using_regex_def none)
      with \<open>f \<in> set yang_files\<close> have "(ERROR, Error_parsing f) \<in> set ?lg"
        by (auto simp: parse_loop_log intro!: bexI [of _ f])
      then show ?thesis
        by (simp add: extract_keys_using_regex_def none)
    qed
    with p show ?thesis by (intro conjI impI) simp_all
  qed
  have out: "exit_status (main w a) = 0 \<and> printed (main w a) = Some ?final"
    if "zip_file a = zip_path" "output_opt a = None"
    using that run by (simp add: main_def)
  have logs': "\<forall>f \<in> set yang_files. (INFO, Parsing f) \<in> set ?lg
                 \<and> (text_files w f = None \<longrightarrow>
                       (ERROR, Error_parsing f) \<in> set ?lg
                       \<and> snd (extract_keys_using_regex w f) = [])"
    using logs by (intro ballI)
  have out': "zip_file a = zip_path \<and> output_opt a = None \<longrightarrow>
                 exit_status (main w a) = 0 \<and> printed (main w a) = Some ?final"
    using out by (intro impI) (elim conjE)
  show ?thesis
    using run tables logs' out'
    by (intro exI [of _ ?lg] exI [of _ ?final] conjI)
qed

lemma extractor_failure_is_isolated_example:
  "extract_yang_files world_one_unreadable ''z.zip'' (temp_dir world_one_unreadable)
     = ([(DEBUG, All_files_in_zip [''/v1-a.yang'', ''v1-b.yang'']), (INFO, Extracted ''/v1-a.yang''),
         (INFO, Extracted ''v1-b.yang''), (INFO, Total_extracted 2)],
        Inr [''/v1-a.yang'', ''/tmp/t/v1-b.yang''])
   \<and> [''/v1-a.yang'', ''/tmp/t/v1-b.yang''] \<noteq> []
   \<and> ''/v1-a.yang'' \<in> set [''/v1-a.yang'', ''/tmp/t/v1-b.yang'']
   \<and> text_files world_one_unreadable ''/v1-a.yang'' = None
   \<and> (\<exists>lg'. extract_primary_keys_from_zip world_one_unreadable ''z.zip''
             = (lg', Inr [(''Foo'', Seq [''b'', ''c''])])
           \<and> (ERROR, Error_parsing ''/v1-a.yang'') \<in> set lg'
           \<and> (INFO, Parsing ''/tmp/t/v1-b.yang'') \<in> set lg')"
proof -
  let ?w = world_one_unreadable
  have h1: "extract_yang_files ?w ''z.zip'' (temp_dir ?w)
     = ([(DEBUG, All_files_in_zip [''/v1-a.yang'', ''v1-b.yang'']), (INFO, Extracted ''/v1-a.yang''),
         (INFO, Extracted ''v1-b.yang''), (INFO, Total_extracted 2)],
        Inr [''/v1-a.yang'', ''/tmp/t/v1-b.yang''])"
    by code_simp
  have h2: "[''/v1-a.yang'', ''/tmp/t/v1-b.yang''] \<noteq> []"
    by simp
  have h3: "text_files ?w ''/v1-a.yang'' = None"
    by code_simp
  have h4: "fold (\<lambda>content acc. dict_update acc (extract_keys_from_content content))
              (List.map_filter (text_files ?w) [''/v1-a.yang'', ''/tmp/t/v1-b.yang'']) []
            = [(''Foo'', Seq [''b'', ''c''])]"
    by code_simp
  from extractor_failure_is_isolated [OF h1 h2, of "\<lparr>zip_file = ''z.zip'', output_opt = None, verbose = False\<rparr>"]
  obtain lg' final where
    run: "extract_primary_keys_from_zip ?w ''z.zip'' = (lg', Inr final)"
    and fin: "final = fold (\<lambda>content acc. dict_update acc (extract_keys_from_content content))
                       (List.map_filter (text_files ?w) [''/v1-a.yang'', ''/tmp/t/v1-b.yang'']) []"
    and logs: "\<forall>f \<in> set [''/v1-a.yang'', ''/tmp/t/v1-b.yang'']. (INFO, Parsing f) \<in> set lg'
                 \<and> (text_files ?w f = None \<longrightarrow>
                       (ERROR, Error_parsing f) \<in> set lg'
                       \<and> snd (extract_keys_using_regex ?w f) = [])"
    by blast
  from logs h3 have e: "(ERROR, Error_parsing ''/v1-a.yang'') \<in> set lg'"
    by simp
  from logs have p: "(INFO, Parsing ''/tmp/t/v1-b.yang'') \<in> set lg'"
    by simp
  from run fin h4 have "extract_primary_keys_from_zip ?w ''z.zip''
             = (lg', Inr [(''Foo'', Seq [''b'', ''c''])])"
    by simp
  with e p have "\<exists>lg'. extract_primary_keys_from_zip ?w ''z.zip''
             = (lg', Inr [(''Foo'', Seq [''b'', ''c''])])
           \<and> (ERROR, Error_parsing ''/v1-a.yang'') \<in> set lg'
           \<and> (INFO, Parsing ''/tmp/t/v1-b.yang'') \<in> set lg'"
    by blast
  with h1 h2 h3 show ?thesis
    by simp
qed

text \<open>
  Claim C5. The claim holds where the failure arises inside the Extractor
  (\<open>extractor_failure_is_isolated\<close> above), but not for every selected member whose
  content cannot be opened: \<^verbatim>\<open>zip_ref.extract\<close> at line 39 stands under no \<^verbatim>\<open>try\<close>. On an
  archive of two selected members of which the first cannot be read, the exception of
  \<^verbatim>\<open>extract\<close> ends the Selector and reaches \<open>main\<close>: the run returns 1, writes no
  mapping, and the second member is neither extracted nor parsed, as the log shows.
\<close>

theorem unextractable_member_aborts_run:
  "selected ''v1-a.yang'' \<and> selected ''v1-b.yang''
   \<and> exit_status (main world_member_unextractable
         \<lparr>zip_file = ''z.zip'', output_opt = None, verbose = True\<rparr>) = 1
   \<and> printed (main world_member_unextractable
         \<lparr>zip_file = ''z.zip'', output_opt = None, verbose = True\<rparr>) = None
   \<and> written (main world_member_unextractable
         \<lparr>zip_file = ''z.zip'', output_opt = None, verbose = True\<rparr>) = None
   \<and> emitted (main world_member_unextractable
         \<lparr>zip_file = ''z.zip'', output_opt = None, verbose = True\<rparr>)
       = [(DEBUG, All_files_in_zip [''v1-a.yang'', ''v1-b.yang'']), (ERROR, Error_message)]"
  by code_simp

section \<open>Concrete runs of the Extractor\<close>

text \<open>
  Claim C9. The pattern does not ask for a word boundary before \<^verbatim>\<open>list\<close>, so the end of
  the keyword \<^verbatim>\<open>leaf-list\<close> starts a match. On the text
  \<^verbatim>\<open>list L { leaf-list a { type string; } key "id"; }\<close> the Extractor returns the mapping
  with the single entry \<open>a\<close> to \<open>id\<close>: the key is given to the leaf-list \<open>a\<close> and the list
  \<open>L\<close> has no entry. The same happens on a text where \<^verbatim>\<open>list\<close> stands only at the end of
  \<^verbatim>\<open>leaf-list\<close>.
\<close>

theorem leaf_list_taken_for_list:
  \<open>extract_keys_from_content ''list L { leaf-list a { type string; } key "id"; }''
     = [(''a'', Scalar ''id'')]
   \<and> map_of (extract_keys_from_content ''list L { leaf-list a { type string; } key "id"; }'') ''L''
     = None
   \<and> extract_keys_from_content ''leaf-list a { key "id"; }'' = [(''a'', Scalar ''id'')]\<close>
  by code_simp

text \<open>
  Claim C10. When the quoted string of the key clause holds only whitespace, as in
  \<^verbatim>\<open>list Foo { key " "; }\<close>, the pattern still matches (the string is not empty), the
  stripped string has no token, and the value stored is the empty list: neither a
  single field name nor a sequence with a field name in it.
\<close>

theorem blank_key_gives_empty_list:
  \<open>extract_keys_from_content ''list Foo { key " "; }'' = [(''Foo'', Seq [])]\<close>
  by code_simp

section \<open>The run on an archive that cannot be opened\<close>

text \<open>
  Claim C6. When the archive path cannot be opened as an archive (it is missing,
  unreadable or not an archive), \<open>main\<close> returns a status that is not zero and writes the
  mapping nowhere: nothing is printed and no output file is written.
\<close>

theorem unopenable_archive_is_fatal:
  assumes "zip_files w (zip_file a) = None"
  shows "exit_status (main w a) \<noteq> 0 \<and> printed (main w a) = None \<and> written (main w a) = None"
  using assms
  by (simp add: main_def extract_primary_keys_from_zip_def extract_yang_files_def)

theorem unopenable_archive_is_fatal_witness:
  "zip_files \<lparr>zip_files = (\<lambda>p. None), temp_dir = ''/tmp/t'', text_files = (\<lambda>p. None),
      writable = (\<lambda>p. True)\<rparr> (zip_file \<lparr>zip_file = ''missing.zip'', output_opt = Some ''out.json'', verbose = False\<rparr>) = None
   \<and> exit_status (main \<lparr>zip_files = (\<lambda>p. None), temp_dir = ''/tmp/t'', text_files = (\<lambda>p. None),
      writable = (\<lambda>p. True)\<rparr> \<lparr>zip_file = ''missing.zip'', output_opt = Some ''out.json'', verbose = False\<rparr>) = 1
   \<and> written (main \<lparr>zip_files = (\<lambda>p. None), temp_dir = ''/tmp/t'', text_files = (\<lambda>p. None),
      writable = (\<lambda>p. True)\<rparr> \<lparr>zip_file = ''missing.zip'', output_opt = Some ''out.json'', verbose = False\<rparr>) = None"
  using unopenable_archive_is_fatal
    [of "\<lparr>zip_files = (\<lambda>p. None), temp_dir = ''/tmp/t'', text_files = (\<lambda>p. None),
           writable = (\<lambda>p. True)\<rparr>"
        "\<lparr>zip_file = ''missing.zip'', output_opt = Some ''out.json'', verbose = False\<rparr>"]
  by (simp add: main_def extract_primary_keys_from_zip_def extract_yang_files_def)

section \<open>Matching a declaration\<close>

lemma space_not_word: "is_space c \<Longrightarrow> \<not> is_word c"
  by (auto simp: is_space_def is_word_def Let_def)

lemma takeWhile_run:
  assumes "\<forall>c \<in> set run. in_class cl c" and "stops cl rest"
  shows "takeWhile (in_class cl) (run @ rest) = run"
proof (cases rest)
  case Nil
  with assms(1) show ?thesis by simp
next
  case (Cons c cs)
  with assms(2) have "\<not> in_class cl c" by (simp add: stops_def)
  with assms(1) Cons show ?thesis by simp
qed

lemma first_some_None: "\<forall>x \<in> set xs. f x = None \<Longrightarrow> first_some f (xs @ ys) = first_some f ys"
  by (induction xs) simp_all

lemma first_some_hit:
  assumes "\<forall>x \<in> set xs. f x = None" and "f y = Some r"
  shows "first_some f (xs @ y # ys) = Some r"
  using assms by (simp add: first_some_None)

lemma counts_greedy:
  assumes "\<forall>c \<in> set run. in_class cl c" and "stops cl rest" and "n \<le> length run"
  shows "counts Greedy n cl (run @ rest) = length run # rev [n ..< length run]"
proof -
  have tw: "takeWhile (in_class cl) (run @ rest) = run"
    using assms(1,2) by (rule takeWhile_run)
  have "counts Greedy n cl (run @ rest) = rev [n ..< Suc (length run)]"
    unfolding counts_def tw by simp
  with assms(3) show ?thesis by simp
qed

lemma rmatch_Rep_greedy:
  assumes "\<forall>c \<in> set run. in_class cl c" and "stops cl rest" and "n \<le> length run"
    and "rmatch ts rest caps = Some r"
  shows "rmatch (Rep Greedy n cl # ts) (run @ rest) caps = Some r"
  using assms(4) by (simp add: counts_greedy [OF assms(1-3)])

lemma rmatch_Cap_greedy:
  assumes "\<forall>c \<in> set run. in_class cl c" and "stops cl rest" and "n \<le> length run"
    and "rmatch ts rest (caps @ [run]) = Some r"
  shows "rmatch (Cap Greedy n cl # ts) (run @ rest) caps = Some r"
  using assms(4) by (simp add: counts_greedy [OF assms(1-3)])

lemma rmatch_literal: "rmatch (map Chr lit @ ts) (lit @ s) caps = rmatch ts s caps"
  by (induction lit) simp_all

lemma rmatch_literal_prefix:
  "rmatch (map Chr lit @ ts) s caps = Some r \<Longrightarrow> take (length lit) s = lit"
proof (induction lit arbitrary: s)
  case Nil
  show ?case by simp
next
  case (Cons c lit)
  from Cons.prems obtain xs where s: "s = c # xs" and "rmatch (map Chr lit @ ts) xs caps = Some r"
    by (auto split: list.splits if_splits)
  with Cons.IH show ?case by simp
qed

lemma counts_lazy:
  assumes "\<forall>c \<in> set body. in_class cl c"
  shows "\<exists>ks. counts Lazy 0 cl (body @ rest) = [0 ..< length body] @ length body # ks"
proof -
  let ?mx = "length (takeWhile (in_class cl) (body @ rest))"
  from assms have "takeWhile (in_class cl) (body @ rest) = body @ takeWhile (in_class cl) rest"
    by simp
  then have le: "length body \<le> ?mx" by simp
  then have "[0 ..< Suc ?mx] = [0 ..< length body] @ [length body ..< Suc ?mx]"
    by (metis le_SucI upt_add_eq_append zero_le le_iff_add)
  moreover from le have "[length body ..< Suc ?mx] = length body # [Suc (length body) ..< Suc ?mx]"
    by (simp add: upt_conv_Cons)
  ultimately show ?thesis
    by (simp add: counts_def)
qed

lemma rmatch_Rep_lazy:
  assumes "\<forall>c \<in> set body. in_class cl c"
    and "\<forall>k < length body. rmatch ts (drop k (body @ rest)) caps = None"
    and "rmatch ts rest caps = Some r"
  shows "rmatch (Rep Lazy 0 cl # ts) (body @ rest) caps = Some r"
proof -
  from counts_lazy [OF assms(1)] obtain ks where
    ks: "counts Lazy 0 cl (body @ rest) = [0 ..< length body] @ length body # ks"
    by blast
  have "first_some (\<lambda>k. rmatch ts (drop k (body @ rest)) caps)
          ([0 ..< length body] @ length body # ks) = Some r"
    by (rule first_some_hit) (use assms(2,3) in simp_all)
  then show ?thesis
    by (simp add: ks)
qed


lemma rmatch_Chr: "rmatch (Chr c # ts) (c # s) caps = rmatch ts s caps"
  by simp

lemma list_pattern_split:
  "list_pattern =
     map Chr ''list'' @
     (Rep Greedy 1 Space # Cap Greedy 1 Word # Rep Greedy 0 Space # Chr CHR ''{'' #
      Rep Lazy 0 (Not_char CHR ''{'') #
      (map Chr ''key'' @
       [Rep Greedy 1 Space, Chr CHR 0x22, Cap Greedy 1 (Not_char CHR 0x22), Chr CHR 0x22]))"
  by (simp add: list_pattern_def)

lemma first_some_eq_None: "first_some f xs = None \<longleftrightarrow> (\<forall>x \<in> set xs. f x = None)"
  by (induction xs) (auto split: option.splits)

lemma set_counts:
  "set (counts q n cl s) = {k. n \<le> k \<and> k \<le> length (takeWhile (in_class cl) s)}"
  by (cases q) (auto simp: counts_def)

lemma rmatch_Rep_iff:
  "rmatch (Rep q n cl # ts) s caps \<noteq> None \<longleftrightarrow>
     (\<exists>k. n \<le> k \<and> k \<le> length (takeWhile (in_class cl) s) \<and> rmatch ts (drop k s) caps \<noteq> None)"
  by (simp add: first_some_eq_None set_counts del: not_None_eq)

lemma rmatch_literal_iff:
  "rmatch (map Chr lit @ ts) s caps \<noteq> None \<longleftrightarrow>
     (\<exists>s'. s = lit @ s' \<and> rmatch ts s' caps \<noteq> None)"
proof (induction lit arbitrary: s)
  case Nil
  show ?case by simp
next
  case (Cons c lit)
  show ?case
  proof (cases s)
    case Nil
    then show ?thesis by simp
  next
    case (Cons x xs)
    then show ?thesis
      using Cons.IH [of xs] by (cases "x = c") (simp_all del: not_None_eq)
  qed
qed

lemma rmatch_Chr_iff:
  "rmatch (Chr c # ts) s caps \<noteq> None \<longleftrightarrow> (\<exists>s'. s = c # s' \<and> rmatch ts s' caps \<noteq> None)"
  by (cases s) (simp_all del: not_None_eq)

lemma rmatch_None_caps: "rmatch p s caps = None \<Longrightarrow> rmatch p s caps' = None"
proof (induction p arbitrary: s caps caps')
  case Nil
  then show ?case by simp
next
  case (Cons t ts)
  show ?case
  proof (cases t)
    case (Chr c)
    with Cons show ?thesis by (auto split: list.splits if_splits)
  next
    case (Rep q n cl)
    with Cons.prems have "\<forall>k \<in> set (counts q n cl s). rmatch ts (drop k s) caps = None"
      by (simp add: first_some_eq_None)
    with Cons.IH have "\<forall>k \<in> set (counts q n cl s). rmatch ts (drop k s) caps' = None"
      by blast
    with Rep show ?thesis by (simp add: first_some_eq_None)
  next
    case (Cap q n cl)
    with Cons.prems have
      "\<forall>k \<in> set (counts q n cl s). rmatch ts (drop k s) (caps @ [take k s]) = None"
      by (simp add: first_some_eq_None)
    with Cons.IH have
      "\<forall>k \<in> set (counts q n cl s). rmatch ts (drop k s) (caps' @ [take k s]) = None"
      by blast
    with Cap show ?thesis by (simp add: first_some_eq_None)
  next
    case Dollar
    with Cons show ?thesis by (auto split: if_splits)
  qed
qed

lemma rmatch_suffix: "rmatch p s caps = Some (caps', rest) \<Longrightarrow> suffix rest s"
proof (induction p arbitrary: s caps)
  case Nil
  then show ?case by simp
next
  case (Cons t ts)
  show ?case
  proof (cases t)
    case (Chr c)
    with Cons.prems obtain xs where "s = c # xs" "rmatch ts xs caps = Some (caps', rest)"
      by (auto split: list.splits if_splits)
    with Cons.IH show ?thesis by (auto intro: suffix_ConsI)
  next
    case (Rep q n cl)
    with Cons.prems obtain k where "rmatch ts (drop k s) caps = Some (caps', rest)"
      by (auto dest: first_some_SomeD)
    with Cons.IH have "suffix rest (drop k s)" by blast
    then show ?thesis using suffix_drop suffix_order.trans by blast
  next
    case (Cap q n cl)
    with Cons.prems obtain k where
      "rmatch ts (drop k s) (caps @ [take k s]) = Some (caps', rest)"
      by (auto dest: first_some_SomeD)
    with Cons.IH have "suffix rest (drop k s)" by blast
    then show ?thesis using suffix_drop suffix_order.trans by blast
  next
    case Dollar
    with Cons.prems have "rmatch ts s caps = Some (caps', rest)"
      by (auto split: if_splits)
    with Cons.IH show ?thesis by blast
  qed
qed

lemma scan_reaches:
  assumes "\<forall>k caps rest. k < length pre \<and>
             rmatch list_pattern (drop k (pre @ txt)) [] = Some (caps, rest)
             \<longrightarrow> length txt \<le> length rest"
  shows "\<exists>ms. finditer (pre @ txt) = ms @ finditer txt"
  using assms
proof (induction pre rule: length_induct)
  case (1 pre)
  note reach = "1.prems"
  show ?case
  proof (cases "rmatch list_pattern (pre @ txt) []")
    case None
    show ?thesis
    proof (cases pre)
      case Nil
      then have "finditer (pre @ txt) = [] @ finditer txt" by simp
      then show ?thesis by blast
    next
      case (Cons c cs)
      from None have f: "finditer (pre @ txt) = finditer (cs @ txt)"
        by (subst finditer.simps) (simp add: Cons)
      have "\<forall>k caps rest. k < length cs \<and>
             rmatch list_pattern (drop k (cs @ txt)) [] = Some (caps, rest)
             \<longrightarrow> length txt \<le> length rest"
      proof (intro allI impI)
        fix k caps rest
        assume h: "k < length cs \<and> rmatch list_pattern (drop k (cs @ txt)) [] = Some (caps, rest)"
        then have "Suc k < length pre"
          and "rmatch list_pattern (drop (Suc k) (pre @ txt)) [] = Some (caps, rest)"
          by (auto simp: Cons)
        with reach show "length txt \<le> length rest" by blast
      qed
      moreover have "length cs < length pre" by (simp add: Cons)
      ultimately obtain ms where "finditer (cs @ txt) = ms @ finditer txt"
        using "1.IH" by blast
      with f show ?thesis by auto
    qed
  next
    case (Some r)
    obtain caps rest where r: "r = (caps, rest)" by (cases r)
    with Some have m: "rmatch list_pattern (pre @ txt) [] = Some (caps, rest)" by simp
    then have f: "finditer (pre @ txt) = caps # finditer rest"
      by (subst finditer.simps) simp
    show ?thesis
    proof (cases pre)
      case Nil
      with m have "length rest < length txt"
        using list_pattern_consumes by fastforce
      then have "finditer (pre @ txt) = [] @ finditer txt" by (simp add: Nil)
      then show ?thesis by blast
    next
      case (Cons c cs)
      then have "0 < length pre" by simp
      with reach m have le: "length txt \<le> length rest"
        by (metis drop0)
      from m have "suffix rest (pre @ txt)" by (rule rmatch_suffix)
      then obtain zs where zs: "pre @ txt = zs @ rest" by (auto simp: suffix_def)
      from m have lt: "length rest < length (pre @ txt)" by (rule list_pattern_consumes)
      from zs have len: "length pre + length txt = length zs + length rest"
        by (metis length_append)
      with le have zle: "length zs \<le> length pre" by simp
      from len lt have zpos: "0 < length zs" by simp
      let ?p = "drop (length zs) pre"
      from zs have "drop (length zs) (pre @ txt) = rest" by (metis append_eq_conv_conj)
      with zle have rest: "rest = ?p @ txt" by simp
      have short: "length ?p < length pre" using zpos zle Cons by simp
      have "\<forall>k caps rest. k < length ?p \<and>
             rmatch list_pattern (drop k (?p @ txt)) [] = Some (caps, rest)
             \<longrightarrow> length txt \<le> length rest"
      proof (intro allI impI)
        fix k caps' rest'
        assume h: "k < length ?p \<and> rmatch list_pattern (drop k (?p @ txt)) [] = Some (caps', rest')"
        then have hk: "k < length ?p"
          and hm: "rmatch list_pattern (drop k (?p @ txt)) [] = Some (caps', rest')"
          by blast+
        from hk have "k < length pre - length zs" by simp
        then have kz: "k + length zs < length pre" by arith
        have "?p @ txt = drop (length zs) (pre @ txt)"
          using zle by simp
        then have "drop k (?p @ txt) = drop (k + length zs) (pre @ txt)"
          by (simp only: drop_drop)
        with hm have "rmatch list_pattern (drop (k + length zs) (pre @ txt)) [] = Some (caps', rest')"
          by (simp only:)
        with kz reach show "length txt \<le> length rest'"
          by blast
      qed
      with short obtain ms where "finditer (?p @ txt) = ms @ finditer txt"
        using "1.IH" by blast
      with f rest have "finditer (pre @ txt) = (caps # ms) @ finditer txt" by simp
      then show ?thesis by blast
    qed
  qed
qed

lemma rmatch_declaration:
  assumes ws1: "ws1 \<noteq> []" "\<forall>c \<in> set ws1. is_space c"
    and ident: "ident \<noteq> []" "\<forall>c \<in> set ident. is_word c"
    and ws2: "\<forall>c \<in> set ws2. is_space c"
    and body: "CHR ''{'' \<notin> set body"
      "\<forall>k < length body.
         rmatch key_clause_pattern
           (drop k (body @ ''key'' @ ws3 @ CHR 0x22 # q @ CHR 0x22 # post)) [] = None"
    and ws3: "ws3 \<noteq> []" "\<forall>c \<in> set ws3. is_space c"
    and q: "q \<noteq> []" "CHR 0x22 \<notin> set q"
  shows "rmatch list_pattern
           (''list'' @ ws1 @ ident @ ws2 @ ''{'' @ body @ ''key'' @ ws3 @ [CHR 0x22] @ q @
              [CHR 0x22] @ post) [] =
         Some ([ident, q], post)"
proof -
  let ?dq = "CHR 0x22"
  let ?t6 = "[Chr ?dq]"
  let ?t5 = "[Rep Greedy 1 Space, Chr ?dq, Cap Greedy 1 (Not_char ?dq), Chr ?dq]"
  let ?t4 = "map Chr ''key'' @ ?t5"
  let ?s6 = "?dq # post"
  let ?s5 = "ws3 @ ?dq # q @ ?s6"
  let ?s4 = "''key'' @ ?s5"
  let ?s3 = "CHR ''{'' # body @ ?s4"
  let ?s2 = "ws2 @ ?s3"
  have m6: "rmatch (Cap Greedy 1 (Not_char ?dq) # ?t6) (q @ ?s6) [ident] = Some ([ident, q], post)"
  proof (rule rmatch_Cap_greedy)
    show "\<forall>c \<in> set q. in_class (Not_char ?dq) c" using q(2) by auto
    show "stops (Not_char ?dq) ?s6" by (simp add: stops_def)
    show "1 \<le> length q" using q(1) by (cases q) simp_all
    show "rmatch ?t6 ?s6 ([ident] @ [q]) = Some ([ident, q], post)" by simp
  qed
  have m5: "rmatch ?t5 ?s5 [ident] = Some ([ident, q], post)"
  proof (rule rmatch_Rep_greedy)
    show "\<forall>c \<in> set ws3. in_class Space c" using ws3(2) by simp
    show "stops Space (?dq # q @ ?s6)" by (simp add: stops_def is_space_def)
    show "1 \<le> length ws3" using ws3(1) by (cases ws3) simp_all
    show "rmatch [Chr ?dq, Cap Greedy 1 (Not_char ?dq), Chr ?dq] (?dq # q @ ?s6) [ident]
            = Some ([ident, q], post)"
      unfolding rmatch_Chr by (rule m6)
  qed
  have m4: "rmatch ?t4 ?s4 [ident] = Some ([ident, q], post)"
    using m5 by (simp only: rmatch_literal)
  have m3: "rmatch (Rep Lazy 0 (Not_char CHR ''{'') # ?t4) (body @ ?s4) [ident]
              = Some ([ident, q], post)"
  proof (rule rmatch_Rep_lazy)
    show "\<forall>c \<in> set body. in_class (Not_char CHR ''{'') c" using body(1) by auto
    show "\<forall>k < length body. rmatch ?t4 (drop k (body @ ?s4)) [ident] = None"
      using body(2) rmatch_None_caps unfolding key_clause_pattern_def by blast
    show "rmatch ?t4 ?s4 [ident] = Some ([ident, q], post)" by (rule m4)
  qed
  have m2: "rmatch (Rep Greedy 0 Space # Chr CHR ''{'' # Rep Lazy 0 (Not_char CHR ''{'') # ?t4)
              ?s2 [ident] = Some ([ident, q], post)"
  proof (rule rmatch_Rep_greedy)
    show "\<forall>c \<in> set ws2. in_class Space c" using ws2 by simp
    show "stops Space ?s3" by (simp add: stops_def is_space_def)
    show "0 \<le> length ws2" by simp
    show "rmatch (Chr CHR ''{'' # Rep Lazy 0 (Not_char CHR ''{'') # ?t4) ?s3 [ident]
            = Some ([ident, q], post)"
      unfolding rmatch_Chr by (rule m3)
  qed
  have stop_word: "stops Word ?s2"
  proof (cases ws2)
    case Nil
    then show ?thesis by (simp add: stops_def is_word_def)
  next
    case (Cons c cs)
    with ws2 have "is_space c" by simp
    then have "\<not> is_word c" by (rule space_not_word)
    with Cons show ?thesis by (simp add: stops_def)
  qed
  have m1: "rmatch (Cap Greedy 1 Word # Rep Greedy 0 Space # Chr CHR ''{'' #
                    Rep Lazy 0 (Not_char CHR ''{'') # ?t4) (ident @ ?s2) []
              = Some ([ident, q], post)"
  proof (rule rmatch_Cap_greedy)
    show "\<forall>c \<in> set ident. in_class Word c" using ident(2) by simp
    show "stops Word ?s2" by (rule stop_word)
    show "1 \<le> length ident" using ident(1) by (cases ident) simp_all
    show "rmatch (Rep Greedy 0 Space # Chr CHR ''{'' # Rep Lazy 0 (Not_char CHR ''{'') # ?t4)
            ?s2 ([] @ [ident]) = Some ([ident, q], post)"
      unfolding append_Nil by (rule m2)
  qed
  have stop_space: "stops Space (ident @ ?s2)"
  proof (cases ident)
    case Nil
    with ident(1) show ?thesis by simp
  next
    case (Cons c cs)
    with ident(2) have "is_word c" by simp
    then have "\<not> is_space c" using space_not_word by blast
    with Cons show ?thesis by (simp add: stops_def)
  qed
  have m0: "rmatch (Rep Greedy 1 Space # Cap Greedy 1 Word # Rep Greedy 0 Space # Chr CHR ''{'' #
                    Rep Lazy 0 (Not_char CHR ''{'') # ?t4) (ws1 @ ident @ ?s2) []
              = Some ([ident, q], post)"
  proof (rule rmatch_Rep_greedy)
    show "\<forall>c \<in> set ws1. in_class Space c" using ws1(2) by simp
    show "stops Space (ident @ ?s2)" by (rule stop_space)
    show "1 \<le> length ws1" using ws1(1) by (cases ws1) simp_all
    show "rmatch (Cap Greedy 1 Word # Rep Greedy 0 Space # Chr CHR ''{'' #
                    Rep Lazy 0 (Not_char CHR ''{'') # ?t4) (ident @ ?s2) []
              = Some ([ident, q], post)"
      by (rule m1)
  qed
  have "rmatch list_pattern (''list'' @ ws1 @ ident @ ?s2) [] = Some ([ident, q], post)"
    unfolding list_pattern_split using m0 by (simp only: rmatch_literal)
  then show ?thesis by simp
qed

lemma list_all_upt: "list_all P [0 ..< n] \<Longrightarrow> \<forall>k < n. P k"
  by (simp add: list_all_iff)

lemma no_match_reaches:
  "\<forall>k < n. f k = None \<Longrightarrow>
     \<forall>k caps rest. k < n \<and> f k = Some (caps, rest) \<longrightarrow> m \<le> length rest"
  by fastforce

text \<open>
  With whitespace and then any other character that is no open brace after the
  identifier, the pattern does not match where the declaration starts, whatever
  follows.
\<close>

lemma rmatch_Cap_iff:
  "rmatch (Cap q n cl # ts) s caps \<noteq> None \<longleftrightarrow>
     (\<exists>k. n \<le> k \<and> k \<le> length (takeWhile (in_class cl) s)
          \<and> rmatch ts (drop k s) (caps @ [take k s]) \<noteq> None)"
  by (simp add: first_some_eq_None set_counts del: not_None_eq)

lemma spaces_then_other:
  assumes "\<forall>c \<in> set run. is_space c" and "\<not> is_space c" and "c \<noteq> x" and "\<not> is_space x"
  shows "rmatch (Rep q 0 Space # Chr x # ts) (run @ c # rest) caps = None"
proof (rule ccontr)
  assume "rmatch (Rep q 0 Space # Chr x # ts) (run @ c # rest) caps \<noteq> None"
  then obtain k where k: "k \<le> length (takeWhile (in_class Space) (run @ c # rest))"
    and m: "rmatch (Chr x # ts) (drop k (run @ c # rest)) caps \<noteq> None"
    unfolding rmatch_Rep_iff by blast
  have "takeWhile (in_class Space) (run @ c # rest) = run"
    by (rule takeWhile_run) (use assms(1,2) in \<open>simp_all add: stops_def\<close>)
  with k have kr: "k \<le> length run" by simp
  from m obtain s' where s': "drop k (run @ c # rest) = x # s'"
    unfolding rmatch_Chr_iff by blast
  show False
  proof (cases "k < length run")
    case True
    then have "drop k (run @ c # rest) = run ! k # drop (Suc k) run @ c # rest"
      by (simp add: Cons_nth_drop_Suc)
    with s' have "run ! k = x" by simp
    moreover from True assms(1) have "is_space (run ! k)" by simp
    ultimately show False using assms(4) by simp
  next
    case False
    with kr have "k = length run" by simp
    with s' have "c = x" by simp
    with assms(3) show False by simp
  qed
qed

lemma declaration_with_other_gap:
  assumes ws1: "\<forall>c \<in> set ws1. is_space c"
    and ident: "ident \<noteq> []" "\<forall>c \<in> set ident. is_word c"
    and ws: "\<forall>c \<in> set ws. is_space c"
    and c: "\<not> is_space c" "c \<noteq> CHR ''{''" "ws \<noteq> [] \<or> \<not> is_word c"
  shows "rmatch list_pattern (''list'' @ ws1 @ ident @ ws @ c # rest) [] = None"
proof (rule ccontr)
  let ?t3 = "Rep Lazy 0 (Not_char CHR ''{'') #
      (map Chr ''key'' @
       [Rep Greedy 1 Space, Chr CHR 0x22, Cap Greedy 1 (Not_char CHR 0x22), Chr CHR 0x22])"
  let ?y = "ws @ c # rest"
  have nb: "\<not> is_space CHR ''{''" by (simp add: is_space_def)
  have nw: "\<not> is_word CHR ''{''" by (simp add: is_word_def)
  assume "rmatch list_pattern (''list'' @ ws1 @ ident @ ?y) [] \<noteq> None"
  then have "rmatch (Rep Greedy 1 Space # Cap Greedy 1 Word # Rep Greedy 0 Space # Chr CHR ''{'' # ?t3)
               (ws1 @ ident @ ?y) [] \<noteq> None"
    by (simp only: list_pattern_split rmatch_literal not_False_eq_True)
  then obtain k1 where k1: "k1 \<le> length (takeWhile (in_class Space) (ws1 @ ident @ ?y))"
    and m1: "rmatch (Cap Greedy 1 Word # Rep Greedy 0 Space # Chr CHR ''{'' # ?t3)
               (drop k1 (ws1 @ ident @ ?y)) [] \<noteq> None"
    unfolding rmatch_Rep_iff by blast
  have stop1: "stops Space (ident @ ?y)"
  proof (cases ident)
    case Nil
    with ident(1) show ?thesis by simp
  next
    case (Cons a as)
    with ident(2) have "is_word a" by simp
    then have "\<not> is_space a" using space_not_word by blast
    with Cons show ?thesis by (simp add: stops_def)
  qed
  have "takeWhile (in_class Space) (ws1 @ ident @ ?y) = ws1"
    by (rule takeWhile_run) (use ws1 stop1 in simp_all)
  with k1 have k1': "k1 \<le> length ws1" by simp
  from m1 obtain k2 where k2: "1 \<le> k2"
      "k2 \<le> length (takeWhile (in_class Word) (drop k1 (ws1 @ ident @ ?y)))"
    and m2: "rmatch (Rep Greedy 0 Space # Chr CHR ''{'' # ?t3)
               (drop k2 (drop k1 (ws1 @ ident @ ?y))) ([] @ [take k2 (drop k1 (ws1 @ ident @ ?y))])
             \<noteq> None"
    unfolding rmatch_Cap_iff by blast
  have k1_eq: "k1 = length ws1"
  proof (rule ccontr)
    assume "k1 \<noteq> length ws1"
    with k1' have lt: "k1 < length ws1" by simp
    then have "drop k1 (ws1 @ ident @ ?y) = ws1 ! k1 # drop (Suc k1) ws1 @ ident @ ?y"
      by (simp add: Cons_nth_drop_Suc)
    moreover from lt ws1 have "is_space (ws1 ! k1)" by simp
    then have "\<not> is_word (ws1 ! k1)" by (rule space_not_word)
    ultimately have "takeWhile (in_class Word) (drop k1 (ws1 @ ident @ ?y)) = []" by simp
    with k2 show False by simp
  qed
  have stop2: "stops Word ?y"
  proof (cases ws)
    case Nil
    with c(3) show ?thesis by (simp add: stops_def)
  next
    case (Cons a as)
    with ws have "is_space a" by simp
    then have "\<not> is_word a" by (rule space_not_word)
    with Cons show ?thesis by (simp add: stops_def)
  qed
  have "takeWhile (in_class Word) (ident @ ?y) = ident"
    by (rule takeWhile_run) (use ident(2) stop2 in simp_all)
  with k2(2) k1_eq have k2': "k2 \<le> length ident" by simp
  show False
  proof (cases "k2 < length ident")
    case True
    then have d: "drop k2 (drop k1 (ws1 @ ident @ ?y)) = [] @ ident ! k2 # (drop (Suc k2) ident @ ?y)"
      by (simp add: k1_eq Cons_nth_drop_Suc)
    from True ident(2) have w: "is_word (ident ! k2)" by simp
    then have "\<not> is_space (ident ! k2)" using space_not_word by blast
    moreover from w nw have "ident ! k2 \<noteq> CHR ''{''" by auto
    ultimately have "rmatch (Rep Greedy 0 Space # Chr CHR ''{'' # ?t3)
        ([] @ ident ! k2 # (drop (Suc k2) ident @ ?y)) ([] @ [take k2 (drop k1 (ws1 @ ident @ ?y))])
        = None"
      using nb by (intro spaces_then_other) simp_all
    with m2 [unfolded d] show False by (rule notE)
  next
    case False
    with k2' have "k2 = length ident" by simp
    then have d: "drop k2 (drop k1 (ws1 @ ident @ ?y)) = ws @ c # rest"
      by (simp add: k1_eq)
    have "rmatch (Rep Greedy 0 Space # Chr CHR ''{'' # ?t3) (ws @ c # rest)
            ([] @ [take k2 (drop k1 (ws1 @ ident @ ?y))]) = None"
      using ws c(1,2) nb by (intro spaces_then_other) simp_all
    with m2 [unfolded d] show False by (rule notE)
  qed
qed

text \<open>
  Claim C4, as stated, fails. In \<^verbatim>\<open>list Foo bar { key "id"; }\<close> the keyword is followed by
  whitespace and the identifier \<open>Foo\<close>, then by characters other than an open brace up
  to the open brace, then by a key clause. The pattern allows only whitespace (\<^verbatim>\<open>\s*\<close>)
  between the identifier and the brace: it does not match that text at its start and
  the Extractor records nothing (\<open>declaration_with_other_gap\<close> above is the general
  fact).
\<close>

theorem gap_of_other_characters_counterexample:
  \<open>CHR ''{'' \<notin> set '' bar ''
   \<and> rmatch list_pattern
        (''list'' @ '' '' @ ''Foo'' @ '' bar '' @ ''{'' @ '' '' @ ''key'' @ '' '' @ [CHR 0x22] @ ''id''
           @ [CHR 0x22] @ ''; }'') [] = None
   \<and> extract_keys_from_content ''list Foo bar { key "id"; }'' = []\<close>
  by code_simp

text \<open>
  Two texts that show what else the match depends on: an earlier match that runs into a
  declaration takes it away, and of two key clauses in a body the first is taken.
\<close>

lemma earlier_match_runs_into_declaration:
  \<open>extract_keys_from_content ''list A { key "list B { key "q"; }''
     = [(''A'', Seq [''list'', ''B'', ''{'', ''key''])]\<close>
  by code_simp

lemma earlier_key_clause_is_taken:
  \<open>extract_keys_from_content ''list Foo { key "a"; key "b"; }'' = [(''Foo'', Scalar ''a'')]\<close>
  by code_simp

text \<open>
  Claim C4, amended: of the gap between the identifier and the open brace only
  whitespace is tolerated. Let a text contain the keyword \<^verbatim>\<open>list\<close>, one or more whitespace
  characters, an identifier of word characters, then whitespace only (possibly none) up
  to an open brace, then any characters that are not another open brace up to the
  keyword \<^verbatim>\<open>key\<close>, one or more whitespace characters and a double-quoted, non-empty
  string; let that key clause be the first that matches after the brace, and let every
  match of the pattern that starts before the declaration end before it. Then the
  pattern matches at the declaration with the identifier and the quoted string as its
  groups, the matches of the Extractor contain that match, followed by those of the rest
  of the text, and the mapping gives the identifier the value of the quoted string
  unless the rest of the text declares the same name again.
\<close>

theorem contained_declaration:
  assumes "ws1 \<noteq> []" and "\<forall>c \<in> set ws1. is_space c"
    and "ident \<noteq> []" and "\<forall>c \<in> set ident. is_word c"
    and "\<forall>c \<in> set ws2. is_space c"
    and "CHR ''{'' \<notin> set body"
    and "\<forall>k < length body.
           rmatch key_clause_pattern
             (drop k (body @ ''key'' @ ws3 @ [CHR 0x22] @ q @ [CHR 0x22] @ post)) [] = None"
    and "ws3 \<noteq> []" and "\<forall>c \<in> set ws3. is_space c"
    and "q \<noteq> []" and "CHR 0x22 \<notin> set q"
    and "decl = ''list'' @ ws1 @ ident @ ws2 @ ''{'' @ body @ ''key'' @ ws3 @ [CHR 0x22] @ q @
                  [CHR 0x22]"
    and "content = pre @ decl @ post"
    and "\<forall>k caps rest. k < length pre \<and>
           rmatch list_pattern (drop k content) [] = Some (caps, rest)
           \<longrightarrow> length (decl @ post) \<le> length rest"
  shows "rmatch list_pattern (decl @ post) [] = Some ([ident, q], post)
       \<and> (\<exists>ms. finditer content = ms @ [ident, q] # finditer post)
       \<and> map_of (extract_keys_from_content content) ident
           = (case map_of (extract_keys_from_content post) ident of
                None \<Rightarrow> Some (stored q) | Some v \<Rightarrow> Some v)"
proof -
  from assms(7) have first_clause: "\<forall>k < length body.
           rmatch key_clause_pattern
             (drop k (body @ ''key'' @ ws3 @ CHR 0x22 # q @ CHR 0x22 # post)) [] = None"
    by simp
  have "rmatch list_pattern
           (''list'' @ ws1 @ ident @ ws2 @ ''{'' @ body @ ''key'' @ ws3 @ [CHR 0x22] @ q @
              [CHR 0x22] @ post) [] = Some ([ident, q], post)"
    using assms(1-6) first_clause assms(8-11) by (rule rmatch_declaration)
  then have m: "rmatch list_pattern (decl @ post) [] = Some ([ident, q], post)"
    by (simp add: assms(12))
  then have f: "finditer (decl @ post) = [ident, q] # finditer post"
    by (subst finditer.simps) simp
  from assms(14) obtain ms where "finditer (pre @ decl @ post) = ms @ finditer (decl @ post)"
    unfolding assms(13) using scan_reaches by blast
  with f have fc: "finditer content = ms @ [ident, q] # finditer post"
    by (simp add: assms(13))
  let ?kv = "\<lambda>m. (m ! 0, stored (m ! 1))"
  have "declarations content = map ?kv ms @ (ident, stored q) # declarations post"
    by (simp add: declarations_def fc)
  then have "map_of (extract_keys_from_content content) ident
           = (case map_of (extract_keys_from_content post) ident of
                None \<Rightarrow> Some (stored q) | Some v \<Rightarrow> Some v)"
    by (simp add: extract_keys_from_content_eq map_of_dict_update map_add_def
        split: option.splits)
  with m fc show ?thesis by blast
qed

theorem contained_declaration_witness:
  \<open>is_space CHR '' '' \<and> is_word CHR ''F'' \<and> is_word CHR ''o''
   \<and> CHR ''{'' \<notin> set '' description "keyed"; ''
   \<and> list_all (\<lambda>k. rmatch key_clause_pattern
                      (drop k ('' description "keyed"; '' @ ''key'' @ '' '' @ [CHR 0x22] @ ''id'' @
                                [CHR 0x22] @ ''; } }'')) [] = None)
        [0 ..< length '' description "keyed"; '']
   \<and> list_all (\<lambda>k. rmatch list_pattern
                      (drop k ''module m { list Foo { description "keyed"; key "id"; } }'') [] = None)
        [0 ..< length ''module m { '']
   \<and> map_of (extract_keys_from_content
               ''module m { list Foo { description "keyed"; key "id"; } }'') ''Foo''
       = Some (Scalar ''id'')\<close>
proof -
  have s: "is_space CHR '' ''" by (simp add: is_space_def)
  have w1: "is_word CHR ''F''" by (simp add: is_word_def)
  have w2: "is_word CHR ''o''" by (simp add: is_word_def)
  from s have sp: "\<forall>c \<in> set '' ''. is_space c" by simp
  from w1 w2 have wd: "\<forall>c \<in> set ''Foo''. is_word c" by simp
  have ne1: "'' '' \<noteq> []" by simp
  have ne2: "''Foo'' \<noteq> []" by simp
  have nb: \<open>CHR ''{'' \<notin> set '' description "keyed"; ''\<close> by simp
  have la: \<open>list_all (\<lambda>k. rmatch key_clause_pattern
                      (drop k ('' description "keyed"; '' @ ''key'' @ '' '' @ [CHR 0x22] @ ''id'' @
                                [CHR 0x22] @ ''; } }'')) [] = None)
        [0 ..< length '' description "keyed"; '']\<close>
    by code_simp
  then have fc: \<open>\<forall>k < length '' description "keyed"; ''.
           rmatch key_clause_pattern
             (drop k ('' description "keyed"; '' @ ''key'' @ '' '' @ [CHR 0x22] @ ''id'' @
                        [CHR 0x22] @ ''; } }'')) [] = None\<close>
    by (rule list_all_upt)
  have ne3: "''id'' \<noteq> []" by simp
  have nq: "CHR 0x22 \<notin> set ''id''" by simp
  have lb: \<open>list_all (\<lambda>k. rmatch list_pattern
                      (drop k ''module m { list Foo { description "keyed"; key "id"; } }'') [] = None)
        [0 ..< length ''module m { '']\<close>
    by code_simp
  then have none: \<open>\<forall>k < length ''module m { ''. rmatch list_pattern
                      (drop k ''module m { list Foo { description "keyed"; key "id"; } }'') [] = None\<close>
    by (rule list_all_upt)
  then have reach: \<open>\<forall>k caps rest. k < length ''module m { '' \<and>
           rmatch list_pattern
             (drop k ''module m { list Foo { description "keyed"; key "id"; } }'') []
             = Some (caps, rest)
           \<longrightarrow> length ((''list'' @ '' '' @ ''Foo'' @ '' '' @ ''{'' @ '' description "keyed"; '' @ ''key''
                          @ '' '' @ [CHR 0x22] @ ''id'' @ [CHR 0x22]) @ ''; } }'') \<le> length rest\<close>
    by (rule no_match_reaches)
  have tx: \<open>''module m { list Foo { description "keyed"; key "id"; } }'' =
     ''module m { '' @
     (''list'' @ '' '' @ ''Foo'' @ '' '' @ ''{'' @ '' description "keyed"; '' @ ''key''
        @ '' '' @ [CHR 0x22] @ ''id'' @ [CHR 0x22]) @ ''; } }''\<close>
    by simp
  have np: \<open>map_of (extract_keys_from_content ''; } }'') ''Foo'' = None\<close>
    by code_simp
  have st: \<open>stored ''id'' = Scalar ''id''\<close>
    by code_simp
  from contained_declaration [OF ne1 sp ne2 wd sp nb fc ne1 sp ne3 nq refl tx reach]
  have \<open>map_of (extract_keys_from_content
               ''module m { list Foo { description "keyed"; key "id"; } }'') ''Foo''
       = (case map_of (extract_keys_from_content ''; } }'') ''Foo'' of
                None \<Rightarrow> Some (stored ''id'') | Some v \<Rightarrow> Some v)\<close>
    by blast
  then have res: \<open>map_of (extract_keys_from_content
               ''module m { list Foo { description "keyed"; key "id"; } }'') ''Foo''
       = Some (Scalar ''id'')\<close>
    by (simp only: np st option.case)
  show ?thesis
    by (rule conjI [OF s conjI [OF w1 conjI [OF w2 conjI [OF nb conjI [OF la conjI [OF lb res]]]]]])
qed

section \<open>The names the Selector takes\<close>

lemma yang_pattern_split:
  "yang_pattern = Rep Greedy 0 Dot # Chr CHR ''-'' # Rep Greedy 0 Dot # (map Chr ''.yang'' @ [Dollar])"
  by (simp add: yang_pattern_def)

lemma takeWhile_Dot: "CHR 0x0A \<notin> set s \<Longrightarrow> takeWhile (in_class Dot) s = s"
  by (simp add: takeWhile_eq_all_conv) auto

lemma rmatch_Dollar: "CHR 0x0A \<notin> set s \<Longrightarrow> rmatch [Dollar] s caps \<noteq> None \<longleftrightarrow> s = []"
  by auto

lemma pattern_match_iff:
  assumes "CHR 0x0A \<notin> set p"
  shows "pattern_match p \<longleftrightarrow> (\<exists>a b. p = a @ ''-'' @ b @ ''.yang'')"
proof
  assume "pattern_match p"
  then obtain k where k: "rmatch (Chr CHR ''-'' # Rep Greedy 0 Dot # (map Chr ''.yang'' @ [Dollar]))
                            (drop k p) [] \<noteq> None"
    unfolding pattern_match_def yang_pattern_split rmatch_Rep_iff by blast
  then obtain s1 where s1: "drop k p = CHR ''-'' # s1"
    and "rmatch (Rep Greedy 0 Dot # (map Chr ''.yang'' @ [Dollar])) s1 [] \<noteq> None"
    unfolding rmatch_Chr_iff by blast
  then obtain j where "rmatch (map Chr ''.yang'' @ [Dollar]) (drop j s1) [] \<noteq> None"
    unfolding rmatch_Rep_iff by blast
  then obtain s' where s': "drop j s1 = ''.yang'' @ s'" and d: "rmatch [Dollar] s' [] \<noteq> None"
    unfolding rmatch_literal_iff by blast
  have "set s' \<subseteq> set (drop j s1)" using s' by auto
  also have "\<dots> \<subseteq> set s1" by (rule set_drop_subset)
  also have "\<dots> \<subseteq> set (drop k p)" using s1 by auto
  also have "\<dots> \<subseteq> set p" by (rule set_drop_subset)
  finally have "CHR 0x0A \<notin> set s'" using assms by blast
  with d have "s' = []" using rmatch_Dollar by blast
  with s' have "s1 = take j s1 @ ''.yang''"
    by (metis append_take_drop_id append_Nil2)
  with s1 have "p = take k p @ ''-'' @ take j s1 @ ''.yang''"
    by (metis append_take_drop_id append_Cons append_Nil)
  then show "\<exists>a b. p = a @ ''-'' @ b @ ''.yang''" by blast
next
  assume "\<exists>a b. p = a @ ''-'' @ b @ ''.yang''"
  then obtain a b where p: "p = a @ ''-'' @ b @ ''.yang''" by blast
  with assms have nl: "CHR 0x0A \<notin> set (b @ ''.yang'')" by simp
  have "rmatch (map Chr ''.yang'' @ [Dollar]) (''.yang'' @ []) [] \<noteq> None"
    unfolding rmatch_literal_iff by simp
  then have 1: "rmatch (map Chr ''.yang'' @ [Dollar]) (drop (length b) (b @ ''.yang'')) [] \<noteq> None"
    by simp
  have 2: "rmatch (Rep Greedy 0 Dot # (map Chr ''.yang'' @ [Dollar])) (b @ ''.yang'') [] \<noteq> None"
    unfolding rmatch_Rep_iff takeWhile_Dot [OF nl]
    using 1 by (intro exI [of _ "length b"]) simp
  have 3: "rmatch (Chr CHR ''-'' # Rep Greedy 0 Dot # (map Chr ''.yang'' @ [Dollar]))
             (drop (length a) p) [] \<noteq> None"
    using 2 by (simp add: p rmatch_Chr del: rmatch.simps(2))
  show "pattern_match p"
    unfolding pattern_match_def yang_pattern_split rmatch_Rep_iff takeWhile_Dot [OF assms]
    using 3 by (intro exI [of _ "length a"]) (simp add: p)
qed

lemma endswith_iff: "endswith s t \<longleftrightarrow> (\<exists>x. s = x @ t)"
proof
  assume "endswith s t"
  then have "s = take (length s - length t) s @ t"
    by (metis append_take_drop_id endswith_def)
  then show "\<exists>x. s = x @ t" ..
next
  assume "\<exists>x. s = x @ t"
  then show "endswith s t" by (auto simp: endswith_def)
qed

lemma basename_subset: "set (basename p) \<subseteq> set p"
  unfolding basename_def using set_takeWhileD by fastforce

lemma basename_append:
  assumes "CHR ''/'' \<notin> set t"
  shows "basename (x @ t) = basename x @ t"
proof -
  have "takeWhile (\<lambda>c. c \<noteq> CHR ''/'') (rev t @ rev x)
          = rev t @ takeWhile (\<lambda>c. c \<noteq> CHR ''/'') (rev x)"
    by (rule takeWhile_append2) (use assms in auto)
  then show ?thesis
    by (simp add: basename_def)
qed

lemma selected_iff:
  assumes "CHR 0x0A \<notin> set p"
  shows "selected p \<longleftrightarrow> endswith p ''.yang'' \<and> \<not> endswith p ''/''
           \<and> (\<exists>stem. basename p = stem @ ''.yang'' \<and> CHR ''-'' \<in> set stem)"
proof
  assume sel: "selected p"
  then have "pattern_match p" and nd: "\<not> endswith p ''/''" and h: "CHR ''-'' \<in> set (basename p)"
    by (simp_all add: selected_def)
  then obtain a b where p: "p = (a @ ''-'' @ b) @ ''.yang''"
    using pattern_match_iff [OF assms] by auto
  then have e: "endswith p ''.yang''"
    unfolding endswith_iff by blast
  have "basename p = basename (a @ ''-'' @ b) @ ''.yang''"
    unfolding p by (rule basename_append) simp
  moreover from this h have "CHR ''-'' \<in> set (basename (a @ ''-'' @ b))" by simp
  ultimately show "endswith p ''.yang'' \<and> \<not> endswith p ''/''
           \<and> (\<exists>stem. basename p = stem @ ''.yang'' \<and> CHR ''-'' \<in> set stem)"
    using e nd by blast
next
  assume r: "endswith p ''.yang'' \<and> \<not> endswith p ''/''
           \<and> (\<exists>stem. basename p = stem @ ''.yang'' \<and> CHR ''-'' \<in> set stem)"
  then obtain x where x: "p = x @ ''.yang''"
    unfolding endswith_iff by blast
  from r obtain stem where st: "basename p = stem @ ''.yang''" "CHR ''-'' \<in> set stem"
    by blast
  have "basename p = basename x @ ''.yang''"
    unfolding x by (rule basename_append) simp
  with st have "CHR ''-'' \<in> set (basename x)" by simp
  then have "CHR ''-'' \<in> set x" using basename_subset by blast
  then obtain a b where "x = a @ CHR ''-'' # b"
    by (auto simp: in_set_conv_decomp)
  with x have "p = a @ ''-'' @ b @ ''.yang''" by simp
  then have "pattern_match p"
    using pattern_match_iff [OF assms] by blast
  moreover from st have "CHR ''-'' \<in> set (basename p)" by simp
  ultimately show "selected p"
    using r by (simp add: selected_def)
qed

text \<open>
  Claim C2. For a member name without a line feed, \<open>selected_iff\<close> above is the claim:
  the member is taken exactly when the name ends with \<^verbatim>\<open>.yang\<close>, does not end with a
  slash, and its last segment has a hyphen before the extension. With a line feed it
  fails both ways. The name \<^verbatim>\<open>v1-a.yang\<close> followed by a line feed is taken, since \<^verbatim>\<open>$\<close>
  also holds before a final line feed, although the name does not end with \<^verbatim>\<open>.yang\<close>.
  The name \<^verbatim>\<open>d\<close>, line feed, \<^verbatim>\<open>/v1-a.yang\<close> is not taken, since the dot of \<^verbatim>\<open>.*\<close> takes
  no line feed and \<^verbatim>\<open>match\<close> starts at the first character, although the name ends with
  \<^verbatim>\<open>.yang\<close>, is no directory entry and has the last segment \<^verbatim>\<open>v1-a.yang\<close>.
\<close>

theorem line_feed_in_member_name:
  "selected (''v1-a.yang'' @ [CHR 0x0A])
   \<and> \<not> endswith (''v1-a.yang'' @ [CHR 0x0A]) ''.yang''
   \<and> \<not> selected (''d'' @ [CHR 0x0A] @ ''/v1-a.yang'')
   \<and> endswith (''d'' @ [CHR 0x0A] @ ''/v1-a.yang'') ''.yang''
   \<and> \<not> endswith (''d'' @ [CHR 0x0A] @ ''/v1-a.yang'') ''/''
   \<and> basename (''d'' @ [CHR 0x0A] @ ''/v1-a.yang'') = ''v1-a.yang''"
  by code_simp

section \<open>The run when no member is selected\<close>

lemma sample_diagnostic_warns:
  "(WARNING, No_yang_files_found) \<in> set (fst (sample_diagnostic w zip_path))"
  by (simp add: sample_diagnostic_def Let_def split: option.splits sum.splits)

lemma emit_keeps: "l \<noteq> DEBUG \<Longrightarrow> (l, m) \<in> set lg \<Longrightarrow> (l, m) \<in> set (emit v lg)"
  by (simp add: emit_def)

lemma no_member_selected:
  assumes "extract_yang_files w (zip_file a) (temp_dir w) = (lg, Inr [])"
    and "sample_diagnostic w (zip_file a) = (lg2, Inr ())"
    and "output_opt a = None"
  shows "exit_status (main w a) = 0 \<and> printed (main w a) = Some []
         \<and> (WARNING, No_yang_files_found) \<in> set (emitted (main w a))"
proof -
  have run: "extract_primary_keys_from_zip w (zip_file a) = (lg @ lg2, Inr [])"
    using assms(1,2) by (simp add: extract_primary_keys_from_zip_def)
  from sample_diagnostic_warns [of w "zip_file a"] assms(2)
  have "(WARNING, No_yang_files_found) \<in> set (lg @ lg2)"
    by simp
  then have "(WARNING, No_yang_files_found) \<in> set (emit (verbose a) (lg @ lg2))"
    by (intro emit_keeps) simp_all
  with run assms(3) show ?thesis
    by (simp add: main_def)
qed

text \<open>
  Claim C7. When no member is selected and the sample can be read (or there is none),
  \<open>no_member_selected\<close> above gives the claim: the warning is logged, the mapping is
  empty and the status is 0. The read of the sample stands under no \<^verbatim>\<open>try\<close>, though:
  on the archive whose only member \<^verbatim>\<open>v1.yang\<close> cannot be read, the archive opens, no
  member is selected, the exception of the sample read reaches \<open>main\<close>, and the run
  returns 1 and writes no mapping.
\<close>

theorem unreadable_sample_aborts_run:
  "extract_yang_files world_sample_unreadable ''z.zip'' (temp_dir world_sample_unreadable)
     = ([(DEBUG, All_files_in_zip [''v1.yang'']), (INFO, Total_extracted 0)], Inr [])
   \<and> exit_status (main world_sample_unreadable
         \<lparr>zip_file = ''z.zip'', output_opt = None, verbose = False\<rparr>) = 1
   \<and> printed (main world_sample_unreadable
         \<lparr>zip_file = ''z.zip'', output_opt = None, verbose = False\<rparr>) = None
   \<and> written (main world_sample_unreadable
         \<lparr>zip_file = ''z.zip'', output_opt = None, verbose = False\<rparr>) = None"
  by code_simp

end
